theory Spec2Isabelle
  imports Main "HOL-Library.Word"
begin

section \<open>JavaScript values used by \<open>src/index.ts\<close>\<close>

text \<open>
  A JavaScript string is a sequence of UTF-16 code units and a \<open>Buffer\<close> is a sequence
  of bytes.  Literals of the source are written \<open>js ''...''\<close>.
\<close>

type_synonym jsstring = "16 word list"
type_synonym buffer = "8 word list"

definition js :: "string \<Rightarrow> jsstring" where
  "js s = map of_char s"

text \<open>An error object: its \<open>name\<close> (the class) and its \<open>message\<close>.\<close>

datatype js_error = JsError (error_name: string) (error_message: string)

subsection \<open>Regular expressions of the source whose pattern is a literal\<close>

text \<open>
  \<open>/lit/.test(s)\<close> holds when the literal occurs somewhere in \<open>s\<close>; \<open>/lit$/.test(s)\<close>
  (no \<open>m\<close> flag) when \<open>s\<close> ends with it; \<open>/lit/i.test(s)\<close> compares canonicalised code
  units.  Without the \<open>u\<close> flag the canonical form of a code unit is its upper case,
  except that a code unit of 128 or more is never mapped below 128: against a pattern of
  ASCII characters only the ASCII letters fold.
\<close>

fun starts_with :: "'a list \<Rightarrow> 'a list \<Rightarrow> bool" where
  "starts_with [] s = True"
| "starts_with (p # ps) [] = False"
| "starts_with (p # ps) (c # cs) = (p = c \<and> starts_with ps cs)"

fun regex_test :: "'a list \<Rightarrow> 'a list \<Rightarrow> bool" where
  "regex_test lit [] = (lit = [])"
| "regex_test lit (c # cs) = (starts_with lit (c # cs) \<or> regex_test lit cs)"

definition regex_test_end :: "'a list \<Rightarrow> 'a list \<Rightarrow> bool" where
  "regex_test_end lit s =
     (length lit \<le> length s \<and> drop (length s - length lit) s = lit)"

definition canonicalize :: "16 word \<Rightarrow> 16 word" where
  "canonicalize c = (if 97 \<le> c \<and> c \<le> 122 then c - 32 else c)"

definition regex_test_i :: "jsstring \<Rightarrow> jsstring \<Rightarrow> bool" where
  "regex_test_i lit s = regex_test (map canonicalize lit) (map canonicalize s)"

text \<open>\<open>ToString\<close> of a header value that may be \<open>undefined\<close>, as \<open>RegExp.test\<close> applies it.\<close>

definition to_string :: "jsstring option \<Rightarrow> jsstring" where
  "to_string v = (case v of None \<Rightarrow> js ''undefined'' | Some s \<Rightarrow> s)"

subsection \<open>String and array methods\<close>

text \<open>
  \<open>s.indexOf(c)\<close> for a one-character \<open>c\<close> (\<open>-1\<close> when absent), \<open>s.slice(start, end)\<close>
  with its negative indices counted from the end, \<open>s.slice(start)\<close>, and
  \<open>array.join(sep)\<close>.
\<close>

definition js_indexOf :: "jsstring \<Rightarrow> 16 word \<Rightarrow> int" where
  "js_indexOf s c =
     (if c \<in> set s then int (length (takeWhile (\<lambda>x. x \<noteq> c) s)) else - 1)"

definition js_slice :: "jsstring \<Rightarrow> int \<Rightarrow> int \<Rightarrow> jsstring" where
  "js_slice s start end =
     (let len = int (length s);
          from = (if start < 0 then max (len + start) 0 else min start len);
          to = (if end < 0 then max (len + end) 0 else min end len)
      in take (nat (to - from)) (drop (nat from) s))"

definition js_slice_from :: "jsstring \<Rightarrow> int \<Rightarrow> jsstring" where
  "js_slice_from s start = js_slice s start (int (length s))"

fun js_join :: "jsstring \<Rightarrow> jsstring list \<Rightarrow> jsstring" where
  "js_join sep [] = []"
| "js_join sep [x] = x"
| "js_join sep (x # y # ys) = x @ sep @ js_join sep (y # ys)"

text \<open>
  \<open>s.split(/;\s*/)\<close>: a separator is a semicolon with all the white space after it
  (the class \<open>\s\<close> of ECMAScript); \<open>cur\<close> is the piece being collected.
\<close>

definition is_space :: "16 word \<Rightarrow> bool" where
  "is_space c =
     (c \<in> set [9, 10, 11, 12, 13, 32, 160, 0x1680, 0x2028, 0x2029, 0x202F, 0x205F,
                0x3000, 0xFEFF]
      \<or> (0x2000 \<le> c \<and> c \<le> 0x200A))"

function split_semicolons :: "jsstring \<Rightarrow> jsstring \<Rightarrow> jsstring list" where
  "split_semicolons cur [] = [cur]"
| "split_semicolons cur (c # cs) =
     (if c = 59 then cur # split_semicolons [] (dropWhile is_space cs)
      else split_semicolons (cur @ [c]) cs)"
  by pat_completeness auto
termination
  by (relation "measure (\<lambda>(cur, s). length s)") (auto simp: less_Suc_eq_le length_dropWhile_le)

text \<open>\<open>s.split('&')\<close>, as \<open>querystring.parse\<close> separates the pairs.\<close>

fun split_char :: "16 word \<Rightarrow> jsstring \<Rightarrow> jsstring \<Rightarrow> jsstring list" where
  "split_char sep cur [] = [cur]"
| "split_char sep cur (c # cs) =
     (if c = sep then cur # split_char sep [] cs else split_char sep (cur @ [c]) cs)"

text \<open>
  \<open>obj[name] = v\<close> for a string \<open>v\<close> on an object created by \<open>{}\<close>.  The name
  \<open>__proto__\<close> reaches the accessor inherited from \<open>Object.prototype\<close>, whose setter
  ignores a value that is neither an object nor \<open>null\<close>: no property is created.
\<close>

definition set_property :: "(jsstring \<rightharpoonup> 'v) \<Rightarrow> jsstring \<Rightarrow> 'v \<Rightarrow> (jsstring \<rightharpoonup> 'v)" where
  "set_property obj name v = (if name = js ''__proto__'' then obj else obj(name \<mapsto> v))"

subsection \<open>\<open>decodeURIComponent\<close>\<close>

text \<open>
  The \<open>Decode\<close> operation of ECMA-262 with an empty reserved set.  Every \<open>%\<close> must be
  followed by two hexadecimal digits; the octets so written must be the UTF-8 encoding of
  code points (no overlong form, no surrogate, nothing above \<open>0x10FFFF\<close>), each octet of
  a sequence written as an escape.  Anything else throws \<open>URIError\<close>.
\<close>

datatype uri_unit = Lit "16 word" | Oct "8 word"

definition hex_digit :: "16 word \<Rightarrow> nat option" where
  "hex_digit c =
     (if 48 \<le> c \<and> c \<le> 57 then Some (unat c - 48)
      else if 65 \<le> c \<and> c \<le> 70 then Some (unat c - 55)
      else if 97 \<le> c \<and> c \<le> 102 then Some (unat c - 87)
      else None)"

fun percent_units :: "jsstring \<Rightarrow> uri_unit list option" where
  "percent_units [] = Some []"
| "percent_units (c # cs) =
     (if c = 37 then
        (case cs of
           h # l # rest \<Rightarrow>
             (case (hex_digit h, hex_digit l) of
                (Some a, Some b) \<Rightarrow>
                  map_option ((#) (Oct (of_nat (16 * a + b)))) (percent_units rest)
              | _ \<Rightarrow> None)
         | _ \<Rightarrow> None)
      else map_option ((#) (Lit c)) (percent_units cs))"

definition continuation :: "8 word \<Rightarrow> bool" where
  "continuation b = (0x80 \<le> b \<and> b \<le> 0xBF)"

text \<open>The UTF-16 code units of a code point.\<close>

definition code_units :: "nat \<Rightarrow> jsstring" where
  "code_units v =
     (if v < 0x10000 then [of_nat v]
      else [of_nat (0xD800 + (v - 0x10000) div 0x400),
            of_nat (0xDC00 + (v - 0x10000) mod 0x400)])"

fun utf8_units :: "uri_unit list \<Rightarrow> jsstring option" where
  "utf8_units [] = Some []"
| "utf8_units (Lit c # us) = map_option ((#) c) (utf8_units us)"
| "utf8_units (Oct b # us) =
     (if b < 0x80 then map_option ((#) (ucast b)) (utf8_units us)
      else if 0xC0 \<le> b \<and> b \<le> 0xDF then
        (case us of
           Oct b1 # rest \<Rightarrow>
             (let v = (unat b mod 32) * 64 + unat b1 mod 64
              in if continuation b1 \<and> 0x80 \<le> v
                 then map_option ((@) (code_units v)) (utf8_units rest) else None)
         | _ \<Rightarrow> None)
      else if 0xE0 \<le> b \<and> b \<le> 0xEF then
        (case us of
           Oct b1 # Oct b2 # rest \<Rightarrow>
             (let v = (unat b mod 16) * 4096 + (unat b1 mod 64) * 64 + unat b2 mod 64
              in if continuation b1 \<and> continuation b2 \<and> 0x800 \<le> v
                    \<and> \<not> (0xD800 \<le> v \<and> v \<le> 0xDFFF)
                 then map_option ((@) (code_units v)) (utf8_units rest) else None)
         | _ \<Rightarrow> None)
      else if 0xF0 \<le> b \<and> b \<le> 0xF7 then
        (case us of
           Oct b1 # Oct b2 # Oct b3 # rest \<Rightarrow>
             (let v = (unat b mod 8) * 262144 + (unat b1 mod 64) * 4096
                      + (unat b2 mod 64) * 64 + unat b3 mod 64
              in if continuation b1 \<and> continuation b2 \<and> continuation b3
                    \<and> 0x10000 \<le> v \<and> v \<le> 0x10FFFF
                 then map_option ((@) (code_units v)) (utf8_units rest) else None)
         | _ \<Rightarrow> None)
      else None)"

definition decodeURIComponent :: "jsstring \<Rightarrow> js_error + jsstring" where
  "decodeURIComponent s =
     (case Option.bind (percent_units s) utf8_units of
        None \<Rightarrow> Inl (JsError ''URIError'' ''URI malformed'')
      | Some r \<Rightarrow> Inr r)"

subsection \<open>\<open>Buffer.toString('utf8')\<close>\<close>

text \<open>
  UTF-8 decoding that never fails: every maximal ill-formed run of bytes becomes one
  replacement character \<open>U+FFFD\<close>, and decoding resumes at the byte that broke the
  sequence.
\<close>

definition utf8_tail :: "8 word \<Rightarrow> 8 word \<Rightarrow> bool" where
  "utf8_tail lead b =
     ((if lead = 0xE0 then 0xA0 else if lead = 0xF0 then 0x90 else 0x80) \<le> b
      \<and> b \<le> (if lead = 0xED then 0x9F else if lead = 0xF4 then 0x8F else 0xBF))"

fun toString_utf8 :: "buffer \<Rightarrow> jsstring" where
  "toString_utf8 [] = []"
| "toString_utf8 (b # bs) =
     (if b < 0x80 then ucast b # toString_utf8 bs
      else if 0xC2 \<le> b \<and> b \<le> 0xDF then
        (case bs of
           [] \<Rightarrow> [0xFFFD]
         | b1 # r1 \<Rightarrow>
             if continuation b1
             then code_units ((unat b mod 32) * 64 + unat b1 mod 64) @ toString_utf8 r1
             else 0xFFFD # toString_utf8 bs)
      else if 0xE0 \<le> b \<and> b \<le> 0xEF then
        (case bs of
           [] \<Rightarrow> [0xFFFD]
         | b1 # r1 \<Rightarrow>
             if utf8_tail b b1 then
               (case r1 of
                  [] \<Rightarrow> [0xFFFD]
                | b2 # r2 \<Rightarrow>
                    if continuation b2
                    then code_units ((unat b mod 16) * 4096 + (unat b1 mod 64) * 64
                                     + unat b2 mod 64) @ toString_utf8 r2
                    else 0xFFFD # toString_utf8 r1)
             else 0xFFFD # toString_utf8 bs)
      else if 0xF0 \<le> b \<and> b \<le> 0xF4 then
        (case bs of
           [] \<Rightarrow> [0xFFFD]
         | b1 # r1 \<Rightarrow>
             if utf8_tail b b1 then
               (case r1 of
                  [] \<Rightarrow> [0xFFFD]
                | b2 # r2 \<Rightarrow>
                    if continuation b2 then
                      (case r2 of
                         [] \<Rightarrow> [0xFFFD]
                       | b3 # r3 \<Rightarrow>
                           if continuation b3
                           then code_units ((unat b mod 8) * 262144 + (unat b1 mod 64) * 4096
                                            + (unat b2 mod 64) * 64 + unat b3 mod 64)
                                @ toString_utf8 r3
                           else 0xFFFD # toString_utf8 r2)
                    else 0xFFFD # toString_utf8 r1)
             else 0xFFFD # toString_utf8 bs)
      else 0xFFFD # toString_utf8 bs)"

subsection \<open>UTF-8 encoding, for the statements about the two decoders\<close>

text \<open>
  The Unicode scalar values, their UTF-8 encoding (the table of the Unicode standard),
  and the escape \<open>%XX\<close> of a byte as \<open>encodeURIComponent\<close> writes it.
\<close>

definition scalar_value :: "nat \<Rightarrow> bool" where
  "scalar_value cp \<longleftrightarrow> cp < 0xD800 \<or> (0xE000 \<le> cp \<and> cp < 0x110000)"

definition byte :: "nat \<Rightarrow> 8 word" where
  "byte n = of_nat n"

definition utf8_encode :: "nat \<Rightarrow> buffer" where
  "utf8_encode cp =
     (if cp < 0x80 then [byte cp]
      else if cp < 0x800 then [byte (0xC0 + cp div 64), byte (0x80 + cp mod 64)]
      else if cp < 0x10000 then
        [byte (0xE0 + cp div 4096), byte (0x80 + cp div 64 mod 64), byte (0x80 + cp mod 64)]
      else
        [byte (0xF0 + cp div 262144), byte (0x80 + cp div 4096 mod 64),
         byte (0x80 + cp div 64 mod 64), byte (0x80 + cp mod 64)])"

definition hex_char :: "nat \<Rightarrow> 16 word" where
  "hex_char n = (if n < 10 then of_nat (48 + n) else of_nat (55 + n))"

definition percent_escape :: "8 word \<Rightarrow> jsstring" where
  "percent_escape b = [37, hex_char (unat b div 16), hex_char (unat b mod 16)]"

definition escaped_utf8 :: "nat list \<Rightarrow> jsstring" where
  "escaped_utf8 cps = concat (map percent_escape (concat (map utf8_encode cps)))"





subsection \<open>\<open>JSON.parse\<close>\<close>

text \<open>
  The JSON grammar of ECMA-404, which \<open>JSON.parse\<close> accepts: a lexer that reads one code
  unit at a time, then a parser that keeps the containers still open on a stack.  A text
  outside the grammar throws \<open>SyntaxError\<close> (the wording of its message belongs to the
  engine).  A number is kept as its literal and an object as its members in the order
  written; the conversion to a double is not part of the model.
\<close>

datatype json = JNull | JBool bool | JNumber jsstring | JString jsstring
  | JArray "json list" | JObject "(jsstring \<times> json) list"

datatype token = TLBrace | TRBrace | TLBracket | TRBracket | TColon | TComma
  | TString jsstring | TNumber jsstring | TTrue | TFalse | TNull

datatype lex_mode = Idle | InString jsstring | InEscape jsstring
  | InUnicode jsstring "nat list" | InNumber jsstring | InWord jsstring token

definition is_digit :: "16 word \<Rightarrow> bool" where
  "is_digit c = (48 \<le> c \<and> c \<le> 57)"

definition number_char :: "16 word \<Rightarrow> bool" where
  "number_char c = (is_digit c \<or> c \<in> set [43, 45, 46, 69, 101])"

definition exponent_ok :: "jsstring \<Rightarrow> bool" where
  "exponent_ok s =
     (case s of
        [] \<Rightarrow> True
      | c # r \<Rightarrow>
          (c = 69 \<or> c = 101)
          \<and> (let ds = (case r of [] \<Rightarrow> [] | d # r' \<Rightarrow> if d = 43 \<or> d = 45 then r' else r)
             in ds \<noteq> [] \<and> list_all is_digit ds))"

definition fraction_ok :: "jsstring \<Rightarrow> bool" where
  "fraction_ok s =
     (case s of
        [] \<Rightarrow> True
      | c # r \<Rightarrow>
          if c = 46 then takeWhile is_digit r \<noteq> [] \<and> exponent_ok (dropWhile is_digit r)
          else exponent_ok s)"

definition json_number :: "jsstring \<Rightarrow> bool" where
  "json_number s =
     (let u = (case s of [] \<Rightarrow> [] | c # r \<Rightarrow> if c = 45 then r else s)
      in case u of
           [] \<Rightarrow> False
         | d # r \<Rightarrow>
             if d = 48 then fraction_ok r
             else is_digit d \<and> fraction_ok (dropWhile is_digit r))"

definition escape_char :: "16 word \<Rightarrow> 16 word option" where
  "escape_char c =
     (if c = 34 \<or> c = 92 \<or> c = 47 then Some c
      else if c = 98 then Some 8
      else if c = 102 then Some 12
      else if c = 110 then Some 10
      else if c = 114 then Some 13
      else if c = 116 then Some 9
      else None)"

definition punctuation :: "16 word \<Rightarrow> token option" where
  "punctuation c =
     (if c = 123 then Some TLBrace else if c = 125 then Some TRBrace
      else if c = 91 then Some TLBracket else if c = 93 then Some TRBracket
      else if c = 58 then Some TColon else if c = 44 then Some TComma
      else None)"

definition json_space :: "16 word \<Rightarrow> bool" where
  "json_space c = (c = 32 \<or> c = 9 \<or> c = 10 \<or> c = 13)"

function (sequential) json_lex :: "lex_mode \<Rightarrow> jsstring \<Rightarrow> token list option" where
  "json_lex Idle [] = Some []"
| "json_lex (InNumber n) [] = (if json_number n then Some [TNumber n] else None)"
| "json_lex (InWord w t) [] = (if w = [] then Some [t] else None)"
| "json_lex (InString s) [] = None"
| "json_lex (InEscape s) [] = None"
| "json_lex (InUnicode s hs) [] = None"
| "json_lex Idle (c # cs) =
     (if json_space c then json_lex Idle cs
      else if c = 34 then json_lex (InString []) cs
      else if c = 45 \<or> is_digit c then json_lex (InNumber [c]) cs
      else if c = 116 then json_lex (InWord (js ''rue'') TTrue) cs
      else if c = 102 then json_lex (InWord (js ''alse'') TFalse) cs
      else if c = 110 then json_lex (InWord (js ''ull'') TNull) cs
      else (case punctuation c of
              Some t \<Rightarrow> map_option ((#) t) (json_lex Idle cs)
            | None \<Rightarrow> None))"
| "json_lex (InString s) (c # cs) =
     (if c = 34 then map_option ((#) (TString s)) (json_lex Idle cs)
      else if c = 92 then json_lex (InEscape s) cs
      else if c < 32 then None
      else json_lex (InString (s @ [c])) cs)"
| "json_lex (InEscape s) (c # cs) =
     (if c = 117 then json_lex (InUnicode s []) cs
      else (case escape_char c of
              Some e \<Rightarrow> json_lex (InString (s @ [e])) cs
            | None \<Rightarrow> None))"
| "json_lex (InUnicode s hs) (c # cs) =
     (case hex_digit c of
        None \<Rightarrow> None
      | Some h \<Rightarrow>
          if length hs = 3
          then json_lex (InString (s @ [of_nat (foldl (\<lambda>v d. 16 * v + d) 0 (hs @ [h]))])) cs
          else json_lex (InUnicode s (hs @ [h])) cs)"
| "json_lex (InNumber n) (c # cs) =
     (if number_char c then json_lex (InNumber (n @ [c])) cs
      else if json_number n then map_option ((#) (TNumber n)) (json_lex Idle (c # cs))
      else None)"
| "json_lex (InWord w t) (c # cs) =
     (case w of
        [] \<Rightarrow> map_option ((#) t) (json_lex Idle (c # cs))
      | x # w' \<Rightarrow> if c = x then json_lex (InWord w' t) cs else None)"
  by pat_completeness auto
termination
  by (relation "measure (\<lambda>(m, s). 2 * length s + (if m = Idle then 0 else 1))") auto

datatype frame = InArray "json list" | InObject "(jsstring \<times> json) list" jsstring

fun parse_value :: "frame list \<Rightarrow> token list \<Rightarrow> json option"
and after_value :: "json \<Rightarrow> frame list \<Rightarrow> token list \<Rightarrow> json option" where
  "parse_value st [] = None"
| "parse_value st (t # ts) =
     (case t of
        TString s \<Rightarrow> after_value (JString s) st ts
      | TNumber n \<Rightarrow> after_value (JNumber n) st ts
      | TTrue \<Rightarrow> after_value (JBool True) st ts
      | TFalse \<Rightarrow> after_value (JBool False) st ts
      | TNull \<Rightarrow> after_value JNull st ts
      | TLBracket \<Rightarrow>
          (case ts of
             TRBracket # ts' \<Rightarrow> after_value (JArray []) st ts'
           | _ \<Rightarrow> parse_value (InArray [] # st) ts)
      | TLBrace \<Rightarrow>
          (case ts of
             TRBrace # ts' \<Rightarrow> after_value (JObject []) st ts'
           | TString k # TColon # ts' \<Rightarrow> parse_value (InObject [] k # st) ts'
           | _ \<Rightarrow> None)
      | _ \<Rightarrow> None)"
| "after_value v [] ts = (if ts = [] then Some v else None)"
| "after_value v (InArray xs # st) ts =
     (case ts of
        TComma # ts' \<Rightarrow> parse_value (InArray (xs @ [v]) # st) ts'
      | TRBracket # ts' \<Rightarrow> after_value (JArray (xs @ [v])) st ts'
      | _ \<Rightarrow> None)"
| "after_value v (InObject ps k # st) ts =
     (case ts of
        TComma # TString k' # TColon # ts' \<Rightarrow>
          parse_value (InObject (ps @ [(k, v)]) k' # st) ts'
      | TRBrace # ts' \<Rightarrow> after_value (JObject (ps @ [(k, v)])) st ts'
      | _ \<Rightarrow> None)"

definition JSON_parse :: "jsstring \<Rightarrow> js_error + json" where
  "JSON_parse text =
     (case Option.bind (json_lex Idle text) (parse_value []) of
        None \<Rightarrow> Inl (JsError ''SyntaxError'' ''Unexpected token or end of JSON input'')
      | Some v \<Rightarrow> Inr v)"

subsection \<open>\<open>querystring.parse\<close>\<close>

text \<open>
  Node's \<open>querystring.parse(str)\<close> with its default separators, its default decoder and
  its default limit of 1000 pairs, as \<open>lib/querystring.js\<close> has it.  The text is cut at
  every \<open>&\<close>; an empty piece is skipped (and counts towards the limit).  A piece is read
  one character at a time: the first \<open>=\<close> ends the key, a \<open>+\<close> is stored as a space, and
  a counter \<open>encodeCheck\<close> looks for a \<open>%\<close> followed by two hexadecimal digits, which sets
  \<open>keyEncoded\<close> or \<open>valEncoded\<close>.  The counter has the quirks of the library: a \<open>+\<close> in
  the value does not reset it, and once the key is known to be encoded the characters of
  the key are counted towards \<open>valEncoded\<close>.  A key or value flagged as encoded is
  decoded by \<open>decodeURIComponent\<close> or, when that throws, by \<open>unescapeBuffer\<close> followed by
  \<open>Buffer.toString\<close>.  A key seen again collects its values in an array.  The object
  returned has no prototype, so every key is an ordinary one.
\<close>

datatype qs_value = QString jsstring | QArray "jsstring list"

type_synonym qs_object = "jsstring \<rightharpoonup> qs_value"

text \<open>
  \<open>unescapeBuffer\<close>: after a \<open>%\<close> that at least two characters follow, a first character
  that is no hexadecimal digit leaves the \<open>%\<close> and is read again; a second one that is no
  digit leaves the \<open>%\<close> and the first, and is read again.  A character is stored in the
  buffer as its low byte.
\<close>

fun unescapeBuffer :: "jsstring \<Rightarrow> bool \<Rightarrow> buffer" where
  "unescapeBuffer [] decodeSpaces = []"
| "unescapeBuffer (c # cs) decodeSpaces =
     (if c = 43 \<and> decodeSpaces then 32 # unescapeBuffer cs decodeSpaces
      else if c = 37 then
        (case cs of
           h # l # rest \<Rightarrow>
             (case hex_digit h of
                None \<Rightarrow> 37 # unescapeBuffer cs decodeSpaces
              | Some a \<Rightarrow>
                  (case hex_digit l of
                     None \<Rightarrow> 37 # ucast h # unescapeBuffer (l # rest) decodeSpaces
                   | Some b \<Rightarrow> of_nat (16 * a + b) # unescapeBuffer rest decodeSpaces))
         | _ \<Rightarrow> 37 # unescapeBuffer cs decodeSpaces)
      else ucast c # unescapeBuffer cs decodeSpaces)"

definition qsUnescape :: "jsstring \<Rightarrow> bool \<Rightarrow> jsstring" where
  "qsUnescape s decodeSpaces =
     (case decodeURIComponent s of
        Inr r \<Rightarrow> r
      | Inl e \<Rightarrow> toString_utf8 (unescapeBuffer s decodeSpaces))"

text \<open>\<open>decodeStr(s, decoder)\<close> with the default decoder, which is \<open>qsUnescape\<close> and never throws.\<close>

definition decodeStr :: "jsstring \<Rightarrow> jsstring" where
  "decodeStr s = qsUnescape s False"

text \<open>
  The variables of the loop of \<open>parse\<close> within one piece: the key and the value read so
  far, the two flags, the counter, and whether the \<open>=\<close> has been met.
\<close>

record qs_scan =
  qkey :: jsstring
  qvalue :: jsstring
  keyEncoded :: bool
  valEncoded :: bool
  encodeCheck :: nat
  eqSeen :: bool

text \<open>The last branch of the loop body, which looks for an escape while \<open>valEncoded\<close> is false.\<close>

definition value_check :: "qs_scan \<Rightarrow> 16 word \<Rightarrow> qs_scan" where
  "value_check st code =
     (if valEncoded st then st
      else if code = 37 then st\<lparr>encodeCheck := 1\<rparr>
      else if encodeCheck st > 0 then
        (if hex_digit code \<noteq> None
         then st\<lparr>encodeCheck := encodeCheck st + 1, valEncoded := (encodeCheck st + 1 = 3)\<rparr>
         else st\<lparr>encodeCheck := 0\<rparr>)
      else st)"

text \<open>
  The loop body for a character other than \<open>&\<close>.  Before the \<open>=\<close>: the \<open>=\<close> resets the
  counter; while \<open>keyEncoded\<close> is false a \<open>%\<close> or a counted digit ends the iteration
  (\<open>continue\<close>); a \<open>+\<close> is stored as a space and ends the iteration; any other character
  falls through to the branch of the value.
\<close>

definition scan_char :: "qs_scan \<Rightarrow> 16 word \<Rightarrow> qs_scan" where
  "scan_char st code =
     (if \<not> eqSeen st then
        (if code = 61 then st\<lparr>eqSeen := True, encodeCheck := 0\<rparr>
         else if \<not> keyEncoded st \<and> code = 37 then
           st\<lparr>encodeCheck := 1, qkey := qkey st @ [code]\<rparr>
         else if \<not> keyEncoded st \<and> encodeCheck st > 0 \<and> hex_digit code \<noteq> None then
           st\<lparr>encodeCheck := encodeCheck st + 1, keyEncoded := (encodeCheck st + 1 = 3),
              qkey := qkey st @ [code]\<rparr>
         else
           (let st1 = (if \<not> keyEncoded st \<and> encodeCheck st > 0
                       then st\<lparr>encodeCheck := 0\<rparr> else st)
            in if code = 43 then st1\<lparr>qkey := qkey st1 @ [32]\<rparr>
               else value_check (st1\<lparr>qkey := qkey st1 @ [code]\<rparr>) code))
      else if code = 43 then st\<lparr>qvalue := qvalue st @ [32]\<rparr>
      else value_check (st\<lparr>qvalue := qvalue st @ [code]\<rparr>) code)"

definition scan_pair :: "jsstring \<Rightarrow> qs_scan" where
  "scan_pair pair =
     foldl scan_char
       \<lparr>qkey = [], qvalue = [], keyEncoded = False, valEncoded = False, encodeCheck = 0,
        eqSeen = False\<rparr> pair"

definition addKeyValue :: "qs_object \<Rightarrow> jsstring \<Rightarrow> jsstring \<Rightarrow> qs_object" where
  "addKeyValue obj k v =
     (case obj k of
        None \<Rightarrow> obj(k \<mapsto> QString v)
      | Some (QString cur) \<Rightarrow> obj(k \<mapsto> QArray [cur, v])
      | Some (QArray cur) \<Rightarrow> obj(k \<mapsto> QArray (cur @ [v])))"

text \<open>The key and the value that \<open>addKeyValue\<close> stores for a piece.\<close>

definition pair_entry :: "jsstring \<Rightarrow> jsstring \<times> jsstring" where
  "pair_entry pair =
     (let st = scan_pair pair
      in (if qkey st \<noteq> [] \<and> keyEncoded st then decodeStr (qkey st) else qkey st,
          if qvalue st \<noteq> [] \<and> valEncoded st then decodeStr (qvalue st) else qvalue st))"

definition add_pair :: "qs_object \<Rightarrow> jsstring \<Rightarrow> qs_object" where
  "add_pair obj pair =
     (if pair = [] then obj
      else addKeyValue obj (fst (pair_entry pair)) (snd (pair_entry pair)))"

definition parseQuerystring :: "jsstring \<Rightarrow> qs_object" where
  "parseQuerystring qs =
     (if qs = [] then Map.empty
      else foldl add_pair Map.empty (take 1000 (split_char 38 [] qs)))"

text \<open>
  What the loop amounts to, for the statements below: the pieces that count; the text of
  the key and of the value of a piece, cut at the first \<open>=\<close> with every \<open>+\<close> read as a
  space; and the object that holds for each key its values in order, a single one as a
  string and several as an array.
\<close>

definition query_pairs :: "jsstring \<Rightarrow> jsstring list" where
  "query_pairs qs = filter (\<lambda>pair. pair \<noteq> []) (take 1000 (split_char 38 [] qs))"

definition plus_space :: "16 word \<Rightarrow> 16 word" where
  "plus_space c = (if c = 43 then 32 else c)"

definition key_text :: "jsstring \<Rightarrow> jsstring" where
  "key_text pair = map plus_space (takeWhile (\<lambda>c. c \<noteq> 61) pair)"

definition value_text :: "jsstring \<Rightarrow> jsstring" where
  "value_text pair = map plus_space (drop 1 (dropWhile (\<lambda>c. c \<noteq> 61) pair))"

definition collected :: "(jsstring \<times> jsstring) list \<Rightarrow> qs_object" where
  "collected kvs k =
     (case map snd (filter (\<lambda>kv. fst kv = k) kvs) of
        [] \<Rightarrow> None
      | [v] \<Rightarrow> Some (QString v)
      | vs \<Rightarrow> Some (QArray vs))"

text \<open>
  A text holds an escape: a \<open>%\<close> followed by two hexadecimal digits.  The invariant of
  the loop: the key and the value are the two texts, a flag that is still false means
  that no escape has been read, and the counter tells how much of an escape ends the
  text read so far.
\<close>

fun has_escape :: "jsstring \<Rightarrow> bool" where
  "has_escape (c # h # l # rest) =
     ((c = 37 \<and> hex_digit h \<noteq> None \<and> hex_digit l \<noteq> None) \<or> has_escape (h # l # rest))"
| "has_escape s = False"

definition pending_ok :: "jsstring \<Rightarrow> nat \<Rightarrow> bool" where
  "pending_ok s n \<longleftrightarrow>
     (s \<noteq> [] \<and> last s = 37 \<longrightarrow> n = 1)
     \<and> (\<forall>t h. s = t @ [37, h] \<and> hex_digit h \<noteq> None \<longrightarrow> n = 2)"

definition scan_inv :: "jsstring \<Rightarrow> qs_scan \<Rightarrow> bool" where
  "scan_inv p st \<longleftrightarrow>
     eqSeen st = (61 \<in> set p) \<and> qkey st = key_text p \<and> qvalue st = value_text p
     \<and> (\<not> keyEncoded st \<longrightarrow> \<not> has_escape (qkey st))
     \<and> (\<not> valEncoded st \<longrightarrow> \<not> has_escape (qvalue st))
     \<and> (\<not> eqSeen st \<and> \<not> keyEncoded st \<longrightarrow> pending_ok (qkey st) (encodeCheck st))
     \<and> (eqSeen st \<and> \<not> valEncoded st \<longrightarrow> pending_ok (qvalue st) (encodeCheck st))"

section \<open>The request\<close>

text \<open>
  \<open>IncomingMessage.headers\<close> maps lower-cased names to values.  Node delivers
  \<open>content-type\<close>, \<open>accept\<close> and \<open>x-requested-with\<close> as one string or not at all;
  \<open>addCookies\<close> itself provides for a \<open>cookie\<close> value that is an array of strings.
\<close>

datatype cookie_header = One jsstring | Many "jsstring list"

record headers =
  content_type :: "jsstring option"
  x_requested_with :: "jsstring option"
  accept :: "jsstring option"
  cookie :: "cookie_header option"

text \<open>
  The interface \<open>Url\<close> of the source: the seven properties \<open>addUrlObj\<close> selects from
  what \<open>url.parse\<close> returns; \<open>None\<close> is \<open>null\<close>.
\<close>

record Url =
  protocol :: "jsstring option"
  auth :: "jsstring option"
  hostname :: "jsstring option"
  port :: "jsstring option"
  pathname :: "jsstring option"
  query :: qs_object
  hash :: "jsstring option"

text \<open>The value \<open>addBody\<close> attaches as \<open>body\<close>.\<close>

datatype body_value = Undefined | Json json | Form qs_object | Raw buffer

text \<open>
  The request with the fields the transforms attach through \<open>Object.assign\<close>;
  \<open>None\<close> is a property that has not been set.  The seven URL properties are always
  attached together.
\<close>

record request =
  headers :: headers
  url :: jsstring
  body :: "body_value option"
  xhr :: "bool option"
  url_fields :: "Url option"
  cookies :: "(jsstring \<rightharpoonup> jsstring) option"

section \<open>\<open>addBody\<close>\<close>

text \<open>
  What the request's stream emits, in order, and the state of a promise.  A promise is
  settled by the first call of \<open>resolve\<close> or \<open>reject\<close>; later calls change nothing.  A
  stream observed only up to some point, or one that never ends, leaves it pending.
\<close>

datatype event = Data buffer | End | Error js_error

datatype 'a promise = Pending | Fulfilled 'a | Rejected js_error

text \<open>
  The executor of \<open>new Promise<Buffer>\<close>: \<open>chunks\<close> collects the data events;
  \<open>end\<close> resolves with \<open>Buffer.concat(chunks)\<close> and \<open>error\<close> rejects with the value
  the stream emitted.
\<close>

fun read_stream :: "buffer list \<Rightarrow> event list \<Rightarrow> buffer promise" where
  "read_stream chunks [] = Pending"
| "read_stream chunks (Error e # events) = Rejected e"
| "read_stream chunks (Data chunk # events) = read_stream (chunks @ [chunk]) events"
| "read_stream chunks (End # events) = Fulfilled (concat chunks)"

text \<open>\<open>promise.then(f)\<close>: an exception thrown by \<open>f\<close> rejects the new promise.\<close>

definition promise_then :: "'a promise \<Rightarrow> ('a \<Rightarrow> js_error + 'b) \<Rightarrow> 'b promise" where
  "promise_then p f =
     (case p of
        Pending \<Rightarrow> Pending
      | Rejected e \<Rightarrow> Rejected e
      | Fulfilled v \<Rightarrow> (case f v of Inl e \<Rightarrow> Rejected e | Inr r \<Rightarrow> Fulfilled r))"

text \<open>The callback of the first \<open>then\<close>: the dispatch on the content type.\<close>

definition parse_body :: "jsstring \<Rightarrow> buffer \<Rightarrow> js_error + body_value" where
  "parse_body contentType data =
     (if regex_test_i (js ''application/json'') contentType then
        (if length data > 0
         then (case JSON_parse (toString_utf8 data) of Inl e \<Rightarrow> Inl e | Inr v \<Rightarrow> Inr (Json v))
         else Inr Undefined)
      else if regex_test_i (js ''application/x-www-form-urlencoded'') contentType then
        Inr (Form (parseQuerystring (toString_utf8 data)))
      else Inr (Raw data))"

definition addBody :: "request \<Rightarrow> event list \<Rightarrow> request promise" where
  "addBody req events =
     (let contentType =
            (case content_type (headers req) of
               None \<Rightarrow> []
             | Some s \<Rightarrow> if s = [] then [] else s)
      in promise_then
           (promise_then (read_stream [] events) (parse_body contentType))
           (\<lambda>body. Inr (req\<lparr>body := Some body\<rparr>)))"

text \<open>
  The failure kinds as the specification names them, to compare with what the promise is
  rejected with.
\<close>

definition is_StreamError :: "js_error \<Rightarrow> bool" where
  "is_StreamError e = (error_name e = ''StreamError'')"

definition is_BodyParseError :: "js_error \<Rightarrow> bool" where
  "is_BodyParseError e = (error_name e = ''BodyParseError'')"

section \<open>\<open>addXhr\<close>\<close>

definition addXhr :: "request \<Rightarrow> request" where
  "addXhr req =
     (let xhr = (x_requested_with (headers req) = Some (js ''XMLHttpRequest''))
                \<or> regex_test_end (js ''.json'') (url req)
                \<or> \<not> regex_test (js ''text/html'') (to_string (accept (headers req)))
      in req\<lparr>xhr := Some xhr\<rparr>)"

section \<open>\<open>addUrlObj\<close>\<close>


section \<open>\<open>addCookies\<close>\<close>

text \<open>\<open>array.forEach(f)\<close> with the object the callback updates; an exception ends it.\<close>

fun forEach :: "('s \<Rightarrow> 'a \<Rightarrow> js_error + 's) \<Rightarrow> 'a list \<Rightarrow> 's \<Rightarrow> js_error + 's" where
  "forEach f [] s = Inr s"
| "forEach f (x # xs) s = (case f s x of Inl e \<Rightarrow> Inl e | Inr s' \<Rightarrow> forEach f xs s')"

text \<open>
  The callback of \<open>forEach\<close>: one piece of the header, stored into the object \<open>obj\<close>
  (the \<open>cookies\<close> of the source).
\<close>

definition store_cookie ::
  "(jsstring \<rightharpoonup> jsstring) \<Rightarrow> jsstring \<Rightarrow> js_error + (jsstring \<rightharpoonup> jsstring)" where
  "store_cookie obj cookieString =
     (let splitAt = js_indexOf cookieString 61;
          name = js_slice cookieString 0 splitAt;
          v = js_slice_from cookieString (splitAt + 1)
      in case decodeURIComponent v of
           Inl e \<Rightarrow> Inl e
         | Inr decoded \<Rightarrow> Inr (set_property obj name decoded))"

text \<open>The test \<open>if (cookieHeader)\<close>: \<open>undefined\<close> and the empty string are false.\<close>

definition truthy :: "cookie_header option \<Rightarrow> bool" where
  "truthy h = (case h of None \<Rightarrow> False | Some (One s) \<Rightarrow> s \<noteq> [] | Some (Many xs) \<Rightarrow> True)"

definition addCookies :: "request \<Rightarrow> js_error + request" where
  "addCookies req =
     (let cookies = Map.empty;
          cookieHeader = cookie (headers req)
      in case (if truthy cookieHeader then
                 (let cookieHeaderString =
                        (case cookieHeader of
                           Some (Many xs) \<Rightarrow> js_join (js '';'') xs
                         | Some (One s) \<Rightarrow> s
                         | None \<Rightarrow> []);
                      cookieStrings = split_semicolons [] cookieHeaderString
                  in forEach store_cookie cookieStrings cookies)
               else Inr cookies) of
           Inl e \<Rightarrow> Inl e
         | Inr cookies' \<Rightarrow> Inr (req\<lparr>cookies := Some cookies'\<rparr>))"

text \<open>
  Names for what the callback computes from one piece, and for the pieces the loop runs
  over, as the statements below refer to them.
\<close>

definition cookie_name :: "jsstring \<Rightarrow> jsstring" where
  "cookie_name cookieString = js_slice cookieString 0 (js_indexOf cookieString 61)"

definition cookie_value :: "jsstring \<Rightarrow> jsstring" where
  "cookie_value cookieString = js_slice_from cookieString (js_indexOf cookieString 61 + 1)"

definition cookie_strings :: "cookie_header \<Rightarrow> jsstring list" where
  "cookie_strings h =
     split_semicolons [] (case h of One s \<Rightarrow> s | Many xs \<Rightarrow> js_join (js '';'') xs)"

section \<open>Requests used as examples\<close>

text \<open>A request as the server hands it over: no field attached yet.\<close>

definition no_headers :: headers where
  "no_headers = \<lparr>content_type = None, x_requested_with = None, accept = None, cookie = None\<rparr>"

definition incoming :: "headers \<Rightarrow> jsstring \<Rightarrow> request" where
  "incoming h u =
     \<lparr>headers = h, url = u, body = None, xhr = None, url_fields = None, cookies = None\<rparr>"

text \<open>The bytes of an ASCII text, as a chunk of the stream carries them.\<close>

definition ascii :: "string \<Rightarrow> buffer" where
  "ascii s = map of_char s"


section \<open>Properties of the string helpers\<close>

lemma starts_with_iff: "starts_with lit s \<longleftrightarrow> (\<exists>r. s = lit @ r)"
  by (induction lit s rule: starts_with.induct) auto

lemma regex_test_iff: "regex_test lit s \<longleftrightarrow> (\<exists>pre post. s = pre @ lit @ post)"
proof (induction s)
  case Nil
  then show ?case by auto
next
  case (Cons c cs)
  show ?case
  proof
    assume "regex_test lit (c # cs)"
    then consider "starts_with lit (c # cs)" | "regex_test lit cs" by auto
    then show "\<exists>pre post. c # cs = pre @ lit @ post"
    proof cases
      case 1
      then obtain r where "c # cs = lit @ r" by (auto simp: starts_with_iff)
      then have "c # cs = [] @ lit @ r" by simp
      then show ?thesis by blast
    next
      case 2
      then obtain pre post where "cs = pre @ lit @ post" using Cons.IH by auto
      then have "c # cs = (c # pre) @ lit @ post" by simp
      then show ?thesis by blast
    qed
  next
    assume "\<exists>pre post. c # cs = pre @ lit @ post"
    then obtain pre post where eq: "c # cs = pre @ lit @ post" by auto
    show "regex_test lit (c # cs)"
    proof (cases pre)
      case Nil
      then have "starts_with lit (c # cs)" using eq by (auto simp: starts_with_iff)
      then show ?thesis by simp
    next
      case (Cons p pre')
      then have "cs = pre' @ lit @ post" using eq by simp
      then have "regex_test lit cs" using Cons.IH by blast
      then show ?thesis by simp
    qed
  qed
qed

lemma regex_test_end_iff: "regex_test_end lit s \<longleftrightarrow> (\<exists>pre. s = pre @ lit)"
proof
  assume "regex_test_end lit s"
  then have "s = take (length s - length lit) s @ lit"
    by (metis append_take_drop_id regex_test_end_def)
  then show "\<exists>pre. s = pre @ lit" ..
next
  assume "\<exists>pre. s = pre @ lit"
  then show "regex_test_end lit s" by (auto simp: regex_test_end_def)
qed

lemma undefined_has_no_text_html:
  "\<not> regex_test (js ''text/html'') (to_string None)"
  by (simp add: to_string_def js_def)

lemma regex_test_i_iff:
  "regex_test_i lit s \<longleftrightarrow>
     (\<exists>pre mid post. s = pre @ mid @ post \<and> map canonicalize mid = map canonicalize lit)"
proof
  assume "regex_test_i lit s"
  then obtain a b where "map canonicalize s = a @ map canonicalize lit @ b"
    by (auto simp: regex_test_i_def regex_test_iff)
  then obtain pre r where s: "s = pre @ r" and r: "map canonicalize lit @ b = map canonicalize r"
    unfolding map_eq_append_conv by blast
  from r obtain mid post where "r = mid @ post" "map canonicalize mid = map canonicalize lit"
    unfolding append_eq_map_conv by force
  with s show "\<exists>pre mid post. s = pre @ mid @ post \<and> map canonicalize mid = map canonicalize lit"
    by blast
next
  assume "\<exists>pre mid post. s = pre @ mid @ post \<and> map canonicalize mid = map canonicalize lit"
  then obtain pre mid post where "s = pre @ mid @ post"
      "map canonicalize mid = map canonicalize lit" by blast
  then have "map canonicalize s = map canonicalize pre @ map canonicalize lit @ map canonicalize post"
    by simp
  then show "regex_test_i lit s"
    unfolding regex_test_i_def regex_test_iff by blast
qed

lemma no_type_in_empty:
  "\<not> regex_test_i (js ''application/json'') []"
  "\<not> regex_test_i (js ''application/x-www-form-urlencoded'') []"
  by (simp_all add: regex_test_i_def js_def)

section \<open>Properties of the stream reader and of the dispatch\<close>

lemma read_stream_end:
  "read_stream acc (map Data chunks @ End # later) = Fulfilled (concat (acc @ chunks))"
  by (induction chunks arbitrary: acc) auto

lemma read_stream_error:
  "read_stream acc (map Data chunks @ Error e # later) = Rejected e"
  by (induction chunks arbitrary: acc) auto

lemma read_stream_rejected:
  "read_stream acc events = Rejected e \<Longrightarrow>
     \<exists>chunks later. events = map Data chunks @ Error e # later"
proof (induction acc events rule: read_stream.induct)
  case (1 chunks)
  then show ?case by simp
next
  case (2 chunks e' events)
  then have "Error e' # events = map Data [] @ Error e # events" by simp
  then show ?case by blast
next
  case (3 chunks chunk events)
  then obtain cs later where "events = map Data cs @ Error e # later" by auto
  then have "Data chunk # events = map Data (chunk # cs) @ Error e # later" by simp
  then show ?case by blast
next
  case (4 chunks events)
  then show ?case by simp
qed

lemma read_stream_fulfilled:
  "read_stream acc events = Fulfilled data \<Longrightarrow>
     \<exists>chunks later. events = map Data chunks @ End # later \<and> data = concat (acc @ chunks)"
proof (induction acc events rule: read_stream.induct)
  case (1 chunks)
  then show ?case by simp
next
  case (2 chunks e' events)
  then show ?case by simp
next
  case (3 chunks chunk events)
  then obtain cs later where "events = map Data cs @ End # later"
      "data = concat ((chunks @ [chunk]) @ cs)" by auto
  then have "Data chunk # events = map Data (chunk # cs) @ End # later
      \<and> data = concat (chunks @ chunk # cs)" by simp
  then show ?case by blast
next
  case (4 chunks events)
  then have "End # events = map Data [] @ End # events \<and> data = concat (chunks @ [])" by simp
  then show ?case by blast
qed

lemma addBody_unfold:
  "addBody req events =
     (case read_stream [] events of
        Pending \<Rightarrow> Pending
      | Rejected e \<Rightarrow> Rejected e
      | Fulfilled data \<Rightarrow>
          (case parse_body (case content_type (headers req) of None \<Rightarrow> [] | Some s \<Rightarrow> s) data of
             Inl e \<Rightarrow> Rejected e
           | Inr b \<Rightarrow> Fulfilled (req\<lparr>body := Some b\<rparr>)))"
  by (simp add: addBody_def promise_then_def Let_def split: promise.splits sum.splits option.splits)

lemma addBody_end:
  "addBody req (map Data chunks @ End # later) =
     (case parse_body (case content_type (headers req) of None \<Rightarrow> [] | Some s \<Rightarrow> s) (concat chunks) of
        Inl e \<Rightarrow> Rejected e
      | Inr b \<Rightarrow> Fulfilled (req\<lparr>body := Some b\<rparr>))"
  by (simp add: addBody_unfold read_stream_end)

lemma addBody_error:
  "addBody req (map Data chunks @ Error e # later) = Rejected e"
  by (simp add: addBody_unfold read_stream_error)

text \<open>
  Until the stream ends or fails the promise stays pending, and nothing that follows the
  first \<open>end\<close> or \<open>error\<close> event changes the outcome.
\<close>

lemma read_stream_data_only: "read_stream acc (map Data chunks) = Pending"
  by (induction chunks arbitrary: acc) auto

lemma addBody_pending_until_terminal_event:
  "addBody req (map Data chunks) = Pending"
  by (simp add: addBody_unfold read_stream_data_only)

lemma addBody_first_terminal_event_wins:
  "addBody req (map Data chunks @ End # later) = addBody req (map Data chunks @ [End])
   \<and> addBody req (map Data chunks @ Error e # later) = addBody req (map Data chunks @ [Error e])"
  by (simp add: addBody_end addBody_error)

lemma parse_body_json:
  "regex_test_i (js ''application/json'') ct \<Longrightarrow>
   parse_body ct data =
     (if data = [] then Inr Undefined
      else (case JSON_parse (toString_utf8 data) of Inl e \<Rightarrow> Inl e | Inr v \<Rightarrow> Inr (Json v)))"
  by (simp add: parse_body_def)

lemma parse_body_form:
  "\<not> regex_test_i (js ''application/json'') ct \<Longrightarrow>
   regex_test_i (js ''application/x-www-form-urlencoded'') ct \<Longrightarrow>
   parse_body ct data = Inr (Form (parseQuerystring (toString_utf8 data)))"
  by (simp add: parse_body_def)

lemma parse_body_raw:
  "\<not> regex_test_i (js ''application/json'') ct \<Longrightarrow>
   \<not> regex_test_i (js ''application/x-www-form-urlencoded'') ct \<Longrightarrow>
   parse_body ct data = Inr (Raw data)"
  by (simp add: parse_body_def)

lemma JSON_parse_error:
  "JSON_parse text = Inl e \<Longrightarrow> error_name e = ''SyntaxError''"
  by (auto simp: JSON_parse_def split: option.splits)

section \<open>Properties of the UTF-8 decoders\<close>

lemma byte_unat: "n < 256 \<Longrightarrow> unat (byte n) = n"
  by (simp add: byte_def unat_of_nat)

lemma byte_le_num: "n < 256 \<Longrightarrow> byte n \<le> numeral k \<longleftrightarrow> n \<le> unat (numeral k :: 8 word)"
  by (simp only: word_le_nat_alt byte_unat)

lemma num_le_byte: "n < 256 \<Longrightarrow> numeral k \<le> byte n \<longleftrightarrow> unat (numeral k :: 8 word) \<le> n"
  by (simp only: word_le_nat_alt byte_unat)

lemma byte_less_num: "n < 256 \<Longrightarrow> byte n < numeral k \<longleftrightarrow> n < unat (numeral k :: 8 word)"
  by (simp only: word_less_nat_alt byte_unat)

lemma byte_eq_num: "n < 256 \<Longrightarrow> byte n = numeral k \<longleftrightarrow> n = unat (numeral k :: 8 word)"
  using byte_unat [of n] by (auto simp: word_unat_eq_iff)

lemma byte_ucast: "n < 256 \<Longrightarrow> (ucast (byte n) :: 16 word) = of_nat n"
  by (simp add: byte_def unsigned_of_nat take_bit_nat_eq_self)

lemma continuation_byte: "x < 64 \<Longrightarrow> continuation (byte (128 + x))"
  by (simp add: continuation_def byte_le_num num_le_byte)

lemma mod_offset: "x < n \<Longrightarrow> (k * n + x) mod n = (x::nat)"
  by simp

lemma div_bounds: "a * n \<le> cp \<Longrightarrow> cp < b * n \<Longrightarrow> 0 < n \<Longrightarrow> a \<le> cp div n \<and> cp div n < (b::nat)"
  by (simp add: less_mult_imp_div_less less_eq_div_iff_mult_less_eq)

lemma unat_lead_mod:
  "x < 32 \<Longrightarrow> unat (byte (192 + x)) mod 32 = x"
  "x < 16 \<Longrightarrow> unat (byte (224 + x)) mod 16 = x"
  "x < 8 \<Longrightarrow> unat (byte (240 + x)) mod 8 = x"
  "x < 64 \<Longrightarrow> unat (byte (128 + x)) mod 64 = x"
  using mod_offset [of x 32 6] mod_offset [of x 16 14] mod_offset [of x 8 30] mod_offset [of x 64 2]
  by (simp_all add: byte_unat)

lemma toString_utf8_encode1: "cp < 0x80 \<Longrightarrow> toString_utf8 (utf8_encode cp @ rest) = code_units cp @ toString_utf8 rest"
  by (simp add: utf8_encode_def code_units_def byte_ucast byte_less_num)

lemma toString_utf8_encode2:
  assumes "0x80 \<le> cp" "cp < 0x800"
  shows "toString_utf8 (utf8_encode cp @ rest) = code_units cp @ toString_utf8 rest"
proof -
  define d m where "d = cp div 64" and "m = cp mod 64"
  have d1: "2 \<le> d" and d2: "d < 32"
    using div_bounds [of 2 64 cp 32] assms unfolding d_def by simp_all
  have m: "m < 64" unfolding m_def by simp
  have cp: "d * 64 + m = cp" unfolding d_def m_def by simp
  have enc: "utf8_encode cp = [byte (192 + d), byte (128 + m)]"
    using assms by (simp add: utf8_encode_def d_def m_def)
  have lead: "\<not> byte (192 + d) < 0x80" "0xC2 \<le> byte (192 + d)" "byte (192 + d) \<le> 0xDF"
    using d1 d2 by (simp_all add: byte_less_num byte_le_num num_le_byte)
  have "toString_utf8 ([byte (192 + d), byte (128 + m)] @ rest)
          = code_units (d * 64 + m) @ toString_utf8 rest"
    using lead d2 m by (simp add: continuation_byte unat_lead_mod)
  thus ?thesis unfolding enc cp .
qed


lemma utf8_tail_byte:
  assumes "a < 32" "b < 64"
  shows "utf8_tail (byte (224 + a)) (byte (128 + b))
           \<longleftrightarrow> (a = 0 \<longrightarrow> 32 \<le> b) \<and> (a = 16 \<longrightarrow> 16 \<le> b) \<and> (a = 13 \<longrightarrow> b \<le> 31)
               \<and> (a = 20 \<longrightarrow> b \<le> 15)"
  using assms by (auto simp: utf8_tail_def byte_eq_num byte_le_num num_le_byte)

lemma recompose:
  fixes cp :: nat
  shows "q = p * 64 + r \<Longrightarrow> cp = q * 64 + c \<Longrightarrow> p * 4096 + r * 64 + c = cp"
  by simp

lemma split3:
  fixes cp :: nat
  shows "cp div 4096 * 4096 + cp div 64 mod 64 * 64 + cp mod 64 = cp"
proof -
  have a: "cp div 4096 = cp div 64 div 64"
    using div_mult2_eq [of cp 64 64] by simp
  show ?thesis unfolding a
    by (rule recompose [of "cp div 64"]) simp_all
qed

lemma mid_digit:
  fixes cp :: nat
  assumes "a * 4096 + b * 64 \<le> cp" "cp < a * 4096 + c * 64" "cp div 4096 = a"
  shows "b \<le> cp div 64 mod 64 \<and> cp div 64 mod 64 < c"
proof -
  have "cp div 64 div 64 = a" using div_mult2_eq [of cp 64 64] assms(3) by simp
  hence q: "cp div 64 = a * 64 + cp div 64 mod 64"
    using div_mult_mod_eq [of "cp div 64" 64] by simp
  have "(a * 64 + b) * 64 \<le> cp" "cp < (a * 64 + c) * 64"
    using assms by (simp_all add: algebra_simps)
  hence "a * 64 + b \<le> cp div 64 \<and> cp div 64 < a * 64 + c"
    using div_bounds [of "a * 64 + b" 64 cp "a * 64 + c"] by simp
  thus ?thesis using q by linarith
qed

lemma toString_utf8_encode3:
  assumes "0x800 \<le> cp" "cp < 0x10000" "scalar_value cp"
  shows "toString_utf8 (utf8_encode cp @ rest) = code_units cp @ toString_utf8 rest"
proof -
  define a b c where "a = cp div 4096" and "b = cp div 64 mod 64" and "c = cp mod 64"
  have a: "a < 16" using div_bounds [of 0 4096 cp 16] assms unfolding a_def by simp
  have b: "b < 64" and c: "c < 64" unfolding b_def c_def by simp_all
  have cp: "a * 4096 + b * 64 + c = cp" unfolding a_def b_def c_def by (rule split3)
  have low: "a = 0 \<longrightarrow> 32 \<le> b"
    using mid_digit [of 0 32 cp 64] assms(1) unfolding a_def b_def by auto
  have high: "a = 13 \<longrightarrow> b \<le> 31"
  proof
    assume a13: "a = 13"
    have lo: "53248 \<le> cp" using cp a13 by linarith
    have "cp < 57344" using cp a13 b c by linarith
    hence hi: "cp < 55296" using assms(3) unfolding scalar_value_def by simp
    have "cp div 4096 = 13" using a13 unfolding a_def .
    hence "cp div 64 mod 64 < 32" using mid_digit [of 13 0 cp 32] lo hi by simp
    thus "b \<le> 31" unfolding b_def by simp
  qed
  have enc: "utf8_encode cp = [byte (224 + a), byte (128 + b), byte (128 + c)]"
    using assms by (simp add: utf8_encode_def a_def b_def c_def)
  have lead: "\<not> byte (224 + a) < 0x80" "\<not> byte (224 + a) \<le> 0xDF"
      "0xE0 \<le> byte (224 + a)" "byte (224 + a) \<le> 0xEF"
    using a by (simp_all add: byte_less_num byte_le_num num_le_byte)
  have tail: "utf8_tail (byte (224 + a)) (byte (128 + b))"
    using utf8_tail_byte [of a b] a b low high by simp
  have "toString_utf8 ([byte (224 + a), byte (128 + b), byte (128 + c)] @ rest)
          = code_units (a * 4096 + b * 64 + c) @ toString_utf8 rest"
    using lead tail a b c by (simp add: continuation_byte unat_lead_mod)
  thus ?thesis unfolding enc cp .
qed


lemma toString_utf8_encode4:
  assumes "0x10000 \<le> cp" "cp < 0x110000"
  shows "toString_utf8 (utf8_encode cp @ rest) = code_units cp @ toString_utf8 rest"
proof -
  define p where "p = cp div 4096"
  define a b c d where "a = cp div 262144" and "b = cp div 4096 mod 64"
    and "c = cp div 64 mod 64" and "d = cp mod 64"
  have p: "16 \<le> p" "p < 272"
    using div_bounds [of 16 4096 cp 272] assms unfolding p_def by simp_all
  have a_p: "a = p div 64" using div_mult2_eq [of cp 4096 64] unfolding a_def p_def by simp
  have p_eq: "p = a * 64 + b" unfolding a_p b_def p_def by simp
  have b: "b < 64" and c: "c < 64" and d: "d < 64" unfolding b_def c_def d_def by simp_all
  have a: "a < 5" using p p_eq by linarith
  have low: "a = 0 \<longrightarrow> 16 \<le> b" using p p_eq by auto
  have high: "a = 4 \<longrightarrow> b \<le> 15" using p p_eq by auto
  have "p * 4096 + c * 64 + d = cp" unfolding p_def c_def d_def by (rule split3)
  hence cp: "a * 262144 + b * 4096 + c * 64 + d = cp" unfolding p_eq by simp
  have enc: "utf8_encode cp = [byte (240 + a), byte (128 + b), byte (128 + c), byte (128 + d)]"
    using assms by (simp add: utf8_encode_def a_def b_def c_def d_def)
  have lead: "\<not> byte (240 + a) < 0x80" "\<not> byte (240 + a) \<le> 0xDF" "\<not> byte (240 + a) \<le> 0xEF"
      "0xF0 \<le> byte (240 + a)" "byte (240 + a) \<le> 0xF4"
    using a by (simp_all add: byte_less_num byte_le_num num_le_byte)
  have "utf8_tail (byte (224 + (16 + a))) (byte (128 + b))"
    using utf8_tail_byte [of "16 + a" b] a b low high by simp
  hence tail: "utf8_tail (byte (240 + a)) (byte (128 + b))" by (simp add: add.assoc [symmetric])
  have "a < 8" using a by simp
  hence "toString_utf8 ([byte (240 + a), byte (128 + b), byte (128 + c), byte (128 + d)] @ rest)
          = code_units (a * 262144 + b * 4096 + c * 64 + d) @ toString_utf8 rest"
    using lead tail b c d by (simp add: continuation_byte unat_lead_mod)
  thus ?thesis unfolding enc cp .
qed

lemma toString_utf8_encode:
  assumes "scalar_value cp"
  shows "toString_utf8 (utf8_encode cp @ rest) = code_units cp @ toString_utf8 rest"
proof -
  have top: "cp < 0x110000" using assms unfolding scalar_value_def by auto
  consider "cp < 0x80" | "0x80 \<le> cp" "cp < 0x800" | "0x800 \<le> cp" "cp < 0x10000"
    | "0x10000 \<le> cp" by linarith
  thus ?thesis
  proof cases
    case 1 thus ?thesis by (rule toString_utf8_encode1)
  next
    case 2 thus ?thesis by (rule toString_utf8_encode2)
  next
    case 3 thus ?thesis using assms by (rule toString_utf8_encode3)
  next
    case 4 thus ?thesis using top by (rule toString_utf8_encode4)
  qed
qed

lemma toString_utf8_roundtrip:
  "list_all scalar_value cps \<Longrightarrow>
     toString_utf8 (concat (map utf8_encode cps)) = concat (map code_units cps)"
  by (induction cps) (simp_all add: toString_utf8_encode)

lemma hex_digit_hex_char_upto: "list_all (\<lambda>n. hex_digit (hex_char n) = Some n) [0..<16]"
  by (simp add: upt_rec hex_digit_def hex_char_def)

lemma hex_digit_hex_char: "n < 16 \<Longrightarrow> hex_digit (hex_char n) = Some n"
  using hex_digit_hex_char_upto unfolding list_all_iff by simp

lemma byte_split: "(of_nat (16 * (unat b div 16) + unat b mod 16) :: 8 word) = b"
  by simp

lemma percent_units_escape:
  "percent_units (percent_escape b @ s) = map_option ((#) (Oct b)) (percent_units s)"
proof -
  have "unat b < 2 ^ 8" using unsigned_less [of b] by simp
  hence "unat b < 256" by simp
  hence "unat b div 16 < 16" by (simp add: less_mult_imp_div_less)
  thus ?thesis
    unfolding percent_escape_def by (simp add: hex_digit_hex_char byte_split)
qed

lemma percent_units_escapes:
  "percent_units (concat (map percent_escape bs) @ s)
     = map_option ((@) (map Oct bs)) (percent_units s)"
  by (induction bs) (simp_all add: percent_units_escape option.map_comp comp_def option.map_ident)

lemma single_append: "(@) [x] = (#) x"
  by (rule ext) simp

lemma utf8_units_encode1:
  assumes "cp < 0x80"
  shows "utf8_units (map Oct (utf8_encode cp) @ us) = map_option ((@) (code_units cp)) (utf8_units us)"
  using assms by (simp add: utf8_encode_def code_units_def byte_ucast byte_less_num single_append)

lemma utf8_units_encode2:
  assumes "0x80 \<le> cp" "cp < 0x800"
  shows "utf8_units (map Oct (utf8_encode cp) @ us) = map_option ((@) (code_units cp)) (utf8_units us)"
proof -
  define d m where "d = cp div 64" and "m = cp mod 64"
  have d1: "2 \<le> d" and d2: "d < 32"
    using div_bounds [of 2 64 cp 32] assms unfolding d_def by simp_all
  have m: "m < 64" unfolding m_def by simp
  have cp: "d * 64 + m = cp" unfolding d_def m_def by simp
  have enc: "utf8_encode cp = [byte (192 + d), byte (128 + m)]"
    using assms by (simp add: utf8_encode_def d_def m_def)
  have lead: "\<not> byte (192 + d) < 0x80" "0xC0 \<le> byte (192 + d)" "byte (192 + d) \<le> 0xDF"
    using d1 d2 by (simp_all add: byte_less_num byte_le_num num_le_byte)
  have big: "128 \<le> d * 64 + m" using assms(1) unfolding cp .
  have "utf8_units (map Oct [byte (192 + d), byte (128 + m)] @ us)
          = map_option ((@) (code_units (d * 64 + m))) (utf8_units us)"
    using lead d2 m big by (simp add: continuation_byte unat_lead_mod)
  thus ?thesis unfolding enc cp .
qed


lemma utf8_units_encode3:
  assumes "0x800 \<le> cp" "cp < 0x10000" "scalar_value cp"
  shows "utf8_units (map Oct (utf8_encode cp) @ us) = map_option ((@) (code_units cp)) (utf8_units us)"
proof -
  define a b c where "a = cp div 4096" and "b = cp div 64 mod 64" and "c = cp mod 64"
  have a: "a < 16" using div_bounds [of 0 4096 cp 16] assms unfolding a_def by simp
  have b: "b < 64" and c: "c < 64" unfolding b_def c_def by simp_all
  have cp: "a * 4096 + b * 64 + c = cp" unfolding a_def b_def c_def by (rule split3)
  have enc: "utf8_encode cp = [byte (224 + a), byte (128 + b), byte (128 + c)]"
    using assms by (simp add: utf8_encode_def a_def b_def c_def)
  have lead: "\<not> byte (224 + a) < 0x80" "\<not> byte (224 + a) \<le> 0xDF"
      "0xE0 \<le> byte (224 + a)" "byte (224 + a) \<le> 0xEF"
    using a by (simp_all add: byte_less_num byte_le_num num_le_byte)
  have range: "2048 \<le> a * 4096 + b * 64 + c"
      "\<not> (55296 \<le> a * 4096 + b * 64 + c \<and> a * 4096 + b * 64 + c \<le> 57343)"
    using assms unfolding cp scalar_value_def by auto
  have "utf8_units (map Oct [byte (224 + a), byte (128 + b), byte (128 + c)] @ us)
          = map_option ((@) (code_units (a * 4096 + b * 64 + c))) (utf8_units us)"
    using lead a b c range by (simp add: continuation_byte unat_lead_mod)
  thus ?thesis unfolding enc cp .
qed

lemma utf8_units_encode4:
  assumes "0x10000 \<le> cp" "cp < 0x110000"
  shows "utf8_units (map Oct (utf8_encode cp) @ us) = map_option ((@) (code_units cp)) (utf8_units us)"
proof -
  define p where "p = cp div 4096"
  define a b c d where "a = cp div 262144" and "b = cp div 4096 mod 64"
    and "c = cp div 64 mod 64" and "d = cp mod 64"
  have p: "16 \<le> p" "p < 272"
    using div_bounds [of 16 4096 cp 272] assms unfolding p_def by simp_all
  have a_p: "a = p div 64" using div_mult2_eq [of cp 4096 64] unfolding a_def p_def by simp
  have p_eq: "p = a * 64 + b" unfolding a_p b_def p_def by simp
  have b: "b < 64" and c: "c < 64" and d: "d < 64" unfolding b_def c_def d_def by simp_all
  have a: "a < 5" using p p_eq by linarith
  have "p * 4096 + c * 64 + d = cp" unfolding p_def c_def d_def by (rule split3)
  hence cp: "a * 262144 + b * 4096 + c * 64 + d = cp" unfolding p_eq by simp
  have enc: "utf8_encode cp = [byte (240 + a), byte (128 + b), byte (128 + c), byte (128 + d)]"
    using assms by (simp add: utf8_encode_def a_def b_def c_def d_def)
  have lead: "\<not> byte (240 + a) < 0x80" "\<not> byte (240 + a) \<le> 0xDF" "\<not> byte (240 + a) \<le> 0xEF"
      "0xF0 \<le> byte (240 + a)" "byte (240 + a) \<le> 0xF7"
    using a by (simp_all add: byte_less_num byte_le_num num_le_byte)
  have range: "65536 \<le> a * 262144 + b * 4096 + c * 64 + d"
      "a * 262144 + b * 4096 + c * 64 + d \<le> 1114111"
    using assms unfolding cp by simp_all
  have "a < 8" using a by simp
  hence "utf8_units (map Oct [byte (240 + a), byte (128 + b), byte (128 + c), byte (128 + d)] @ us)
          = map_option ((@) (code_units (a * 262144 + b * 4096 + c * 64 + d))) (utf8_units us)"
    using lead b c d range by (simp add: continuation_byte unat_lead_mod)
  thus ?thesis unfolding enc cp .
qed

lemma utf8_units_encode:
  assumes "scalar_value cp"
  shows "utf8_units (map Oct (utf8_encode cp) @ us) = map_option ((@) (code_units cp)) (utf8_units us)"
proof -
  have top: "cp < 0x110000" using assms unfolding scalar_value_def by auto
  consider "cp < 0x80" | "0x80 \<le> cp" "cp < 0x800" | "0x800 \<le> cp" "cp < 0x10000"
    | "0x10000 \<le> cp" by linarith
  thus ?thesis
  proof cases
    case 1 thus ?thesis by (rule utf8_units_encode1)
  next
    case 2 thus ?thesis by (rule utf8_units_encode2)
  next
    case 3 thus ?thesis using assms by (rule utf8_units_encode3)
  next
    case 4 thus ?thesis using top by (rule utf8_units_encode4)
  qed
qed

lemma utf8_units_roundtrip:
  "list_all scalar_value cps \<Longrightarrow>
     utf8_units (map Oct (concat (map utf8_encode cps))) = Some (concat (map code_units cps))"
proof (induction cps)
  case Nil thus ?case by simp
next
  case (Cons cp cps)
  have "utf8_units (map Oct (utf8_encode cp) @ map Oct (concat (map utf8_encode cps)))
          = map_option ((@) (code_units cp)) (utf8_units (map Oct (concat (map utf8_encode cps))))"
    using Cons.prems by (simp add: utf8_units_encode)
  thus ?case using Cons by simp
qed

lemma decodeURIComponent_roundtrip:
  assumes "list_all scalar_value cps"
  shows "decodeURIComponent (escaped_utf8 cps) = Inr (concat (map code_units cps))"
proof -
  have "percent_units (concat (map percent_escape (concat (map utf8_encode cps))) @ [])
          = Some (map Oct (concat (map utf8_encode cps)))"
    unfolding percent_units_escapes by simp
  thus ?thesis
    using utf8_units_roundtrip [OF assms]
    by (simp add: decodeURIComponent_def escaped_utf8_def)
qed





lemma decodeURIComponent_accepts:
  "decodeURIComponent (js ''caf%C3%A9%20%e2%82%ac%F0%9F%98%80%25'')
     = Inr (js ''caf'' @ [0xE9, 0x20, 0x20AC, 0xD83D, 0xDE00, 0x25])"
  "decodeURIComponent (js ''%ED%9F%BF%EE%80%80%F4%8F%BF%BF'')
     = Inr [0xD7FF, 0xE000, 0xDBFF, 0xDFFF]"
  by (simp_all add: js_def decodeURIComponent_def hex_digit_def continuation_def code_units_def)

lemma toString_utf8_examples:
  "toString_utf8 [0x61, 0xC3, 0xA9, 0xE2, 0x82, 0xAC, 0xF0, 0x9F, 0x98, 0x80]
     = [0x61, 0xE9, 0x20AC, 0xD83D, 0xDE00]"
  "toString_utf8 [0xFF, 0x61] = [0xFFFD, 0x61]"
  "toString_utf8 [0xC0, 0x80] = [0xFFFD, 0xFFFD]"
  "toString_utf8 [0xE2, 0x82, 0x61] = [0xFFFD, 0x61]"
  "toString_utf8 [0xED, 0xA0, 0x80] = [0xFFFD, 0xFFFD, 0xFFFD]"
  "toString_utf8 [0xF4, 0x90, 0x80, 0x80] = [0xFFFD, 0xFFFD, 0xFFFD, 0xFFFD]"
  "toString_utf8 [0xE2, 0x82] = [0xFFFD]"
  by (simp_all add: continuation_def utf8_tail_def code_units_def)

section \<open>Properties of the query-string parser\<close>

lemma has_escape_Cons: "has_escape cs \<Longrightarrow> has_escape (c # cs)"
  by (cases cs rule: has_escape.cases) auto

lemma has_escape_iff:
  "has_escape s \<longleftrightarrow>
     (\<exists>a h l b. s = a @ 37 # h # l # b \<and> hex_digit h \<noteq> None \<and> hex_digit l \<noteq> None)"
proof (induction s rule: has_escape.induct)
  case (1 c h l rest)
  show ?case
  proof
    assume "has_escape (c # h # l # rest)"
    then consider "c = 37 \<and> hex_digit h \<noteq> None \<and> hex_digit l \<noteq> None"
      | "has_escape (h # l # rest)" by auto
    then show "\<exists>a h' l' b. c # h # l # rest = a @ 37 # h' # l' # b
        \<and> hex_digit h' \<noteq> None \<and> hex_digit l' \<noteq> None"
    proof cases
      case 1
      then have "c # h # l # rest = [] @ 37 # h # l # rest" by simp
      with 1 show ?thesis by blast
    next
      case 2
      then obtain a h' l' b where "h # l # rest = a @ 37 # h' # l' # b"
          "hex_digit h' \<noteq> None" "hex_digit l' \<noteq> None"
        using "1.IH" by blast
      then have "c # h # l # rest = (c # a) @ 37 # h' # l' # b" by simp
      with \<open>hex_digit h' \<noteq> None\<close> \<open>hex_digit l' \<noteq> None\<close> show ?thesis by blast
    qed
  next
    assume "\<exists>a h' l' b. c # h # l # rest = a @ 37 # h' # l' # b
        \<and> hex_digit h' \<noteq> None \<and> hex_digit l' \<noteq> None"
    then obtain a h' l' b where eq: "c # h # l # rest = a @ 37 # h' # l' # b"
        and hx: "hex_digit h' \<noteq> None" "hex_digit l' \<noteq> None" by blast
    show "has_escape (c # h # l # rest)"
    proof (cases a)
      case Nil
      with eq hx show ?thesis by simp
    next
      case (Cons x a')
      with eq have "h # l # rest = a' @ 37 # h' # l' # b" by simp
      with hx have "has_escape (h # l # rest)" using "1.IH" by blast
      then show ?thesis by simp
    qed
  qed
qed (auto simp: append_eq_Cons_conv)

lemma has_escape_snoc:
  "has_escape (s @ [c]) \<longleftrightarrow>
     has_escape s \<or> (\<exists>t h. s = t @ [37, h] \<and> hex_digit h \<noteq> None \<and> hex_digit c \<noteq> None)"
proof
  assume "has_escape (s @ [c])"
  then obtain a h l b where eq: "s @ [c] = a @ 37 # h # l # b"
      and hx: "hex_digit h \<noteq> None" "hex_digit l \<noteq> None"
    unfolding has_escape_iff by blast
  show "has_escape s \<or> (\<exists>t h. s = t @ [37, h] \<and> hex_digit h \<noteq> None \<and> hex_digit c \<noteq> None)"
  proof (cases b rule: rev_cases)
    case Nil
    with eq have "s @ [c] = (a @ [37, h]) @ [l]" by simp
    then have "s = a @ [37, h]" "c = l" by (simp_all only: append1_eq_conv)
    with hx show ?thesis by blast
  next
    case (snoc b' x)
    with eq have "s @ [c] = (a @ 37 # h # l # b') @ [x]" by simp
    then have "s = a @ 37 # h # l # b'" by (simp only: append1_eq_conv)
    with hx have "has_escape s" unfolding has_escape_iff by blast
    then show ?thesis ..
  qed
next
  assume "has_escape s \<or> (\<exists>t h. s = t @ [37, h] \<and> hex_digit h \<noteq> None \<and> hex_digit c \<noteq> None)"
  then show "has_escape (s @ [c])"
  proof
    assume "has_escape s"
    then obtain a h l b where "s = a @ 37 # h # l # b" "hex_digit h \<noteq> None" "hex_digit l \<noteq> None"
      unfolding has_escape_iff by blast
    then have "s @ [c] = a @ 37 # h # l # (b @ [c])" by simp
    with \<open>hex_digit h \<noteq> None\<close> \<open>hex_digit l \<noteq> None\<close> show ?thesis
      unfolding has_escape_iff by blast
  next
    assume "\<exists>t h. s = t @ [37, h] \<and> hex_digit h \<noteq> None \<and> hex_digit c \<noteq> None"
    then obtain t h where "s = t @ [37, h]" "hex_digit h \<noteq> None" "hex_digit c \<noteq> None" by blast
    then have "s @ [c] = t @ 37 # h # c # []" by simp
    with \<open>hex_digit h \<noteq> None\<close> \<open>hex_digit c \<noteq> None\<close> show ?thesis
      unfolding has_escape_iff by blast
  qed
qed

lemma hex_digit_special [simp]:
  "hex_digit 37 = None" "hex_digit 32 = None" "hex_digit 43 = None" "hex_digit 61 = None"
  by (simp_all add: hex_digit_def)

lemma pending_ok_percent: "pending_ok (s @ [37]) (Suc 0)"
  by (auto simp: pending_ok_def)

lemma pending_ok_hex:
  "pending_ok s n \<Longrightarrow> hex_digit c \<noteq> None \<Longrightarrow> pending_ok (s @ [c]) (Suc n)"
  by (auto simp: pending_ok_def)

lemma pending_ok_hex_zero:
  "pending_ok s 0 \<Longrightarrow> c \<noteq> 37 \<Longrightarrow> pending_ok (s @ [c]) m"
  by (auto simp: pending_ok_def)

lemma pending_ok_other:
  "c \<noteq> 37 \<Longrightarrow> hex_digit c = None \<Longrightarrow> pending_ok (s @ [c]) m"
  by (auto simp: pending_ok_def)

lemma pending_ok_Nil: "pending_ok [] n"
  by (simp add: pending_ok_def)

lemma no_escape_other:
  "\<not> has_escape s \<Longrightarrow> hex_digit c = None \<Longrightarrow> \<not> has_escape (s @ [c])"
  by (simp add: has_escape_snoc)

lemma no_escape_hex:
  "\<not> has_escape s \<Longrightarrow> pending_ok s n \<Longrightarrow> n \<noteq> 2 \<Longrightarrow> \<not> has_escape (s @ [c])"
  by (auto simp: has_escape_snoc pending_ok_def)

lemma without_equals:
  "61 \<notin> set p \<Longrightarrow> takeWhile (\<lambda>c. c \<noteq> 61) p = p"
  "61 \<notin> set p \<Longrightarrow> dropWhile (\<lambda>c. c \<noteq> (61 :: 16 word)) p = []"
  "61 \<notin> set p \<Longrightarrow>
     dropWhile (\<lambda>c. c \<noteq> (61 :: 16 word)) (p @ q) = dropWhile (\<lambda>c. c \<noteq> 61) q"
  by (induction p) auto

lemma key_text_snoc:
  "61 \<notin> set p \<Longrightarrow> c \<noteq> 61 \<Longrightarrow> key_text (p @ [c]) = key_text p @ [plus_space c]"
  "61 \<notin> set p \<Longrightarrow> key_text (p @ [61]) = key_text p"
  "61 \<in> set p \<Longrightarrow> key_text (p @ [c]) = key_text p"
proof -
  show "key_text (p @ [c]) = key_text p @ [plus_space c]" if "61 \<notin> set p" "c \<noteq> 61"
    using that without_equals(1) [of "p @ [c]"] by (simp add: key_text_def without_equals)
  show "key_text (p @ [61]) = key_text p" if "61 \<notin> set p"
    using that by (simp add: key_text_def takeWhile_tail)
  show "key_text (p @ [c]) = key_text p" if "61 \<in> set p"
    using that by (auto simp: key_text_def takeWhile_append1)
qed

lemma value_text_snoc:
  "61 \<notin> set p \<Longrightarrow> value_text p = []"
  "61 \<notin> set p \<Longrightarrow> value_text (p @ [c]) = []"
  "61 \<in> set p \<Longrightarrow> value_text (p @ [c]) = value_text p @ [plus_space c]"
proof -
  show "value_text p = []" if "61 \<notin> set p"
    using that by (simp add: value_text_def without_equals)
  show "value_text (p @ [c]) = []" if "61 \<notin> set p"
    using that by (cases "c = 61") (simp_all add: value_text_def without_equals)
  show "value_text (p @ [c]) = value_text p @ [plus_space c]" if "61 \<in> set p"
  proof -
    from that have ne: "dropWhile (\<lambda>c. c \<noteq> 61) p \<noteq> []"
      by (simp add: dropWhile_eq_Nil_conv)
    from that have "dropWhile (\<lambda>c. c \<noteq> 61) (p @ [c]) = dropWhile (\<lambda>c. c \<noteq> 61) p @ [c]"
      by (auto simp: dropWhile_append1)
    moreover from ne obtain x xs where "dropWhile (\<lambda>c. c \<noteq> 61) p = x # xs"
      by (cases "dropWhile (\<lambda>c. c \<noteq> 61) p") auto
    ultimately show ?thesis by (simp add: value_text_def)
  qed
qed

lemma scan_inv_step:
  assumes inv: "scan_inv p st"
  shows "scan_inv (p @ [c]) (scan_char st c)"
proof (cases "eqSeen st")
  case True
  with inv have seen: "61 \<in> set p" by (simp add: scan_inv_def)
  show ?thesis
  proof (cases "c = 43")
    case True
    with inv \<open>eqSeen st\<close> seen show ?thesis
      by (auto simp: scan_inv_def scan_char_def key_text_snoc value_text_snoc plus_space_def
            no_escape_other pending_ok_other)
  next
    case False
    with inv \<open>eqSeen st\<close> seen show ?thesis
      by (auto simp: scan_inv_def scan_char_def value_check_def key_text_snoc value_text_snoc
            plus_space_def no_escape_other pending_ok_other pending_ok_percent pending_ok_hex
            pending_ok_hex_zero
          dest: no_escape_hex)
  qed
next
  case False
  with inv have unseen: "61 \<notin> set p" by (simp add: scan_inv_def)
  show ?thesis
  proof (cases "c = 61")
    case True
    with inv \<open>\<not> eqSeen st\<close> unseen show ?thesis
      by (auto simp: scan_inv_def scan_char_def key_text_snoc value_text_snoc pending_ok_Nil)
  next
    case False
    with inv \<open>\<not> eqSeen st\<close> unseen show ?thesis
      by (auto simp: scan_inv_def scan_char_def value_check_def Let_def key_text_snoc
            value_text_snoc plus_space_def no_escape_other pending_ok_other pending_ok_percent
            pending_ok_hex pending_ok_hex_zero pending_ok_Nil
          dest: no_escape_hex)
  qed
qed

lemma scan_inv_foldl: "scan_inv p st \<Longrightarrow> scan_inv (p @ cs) (foldl scan_char st cs)"
proof (induction cs arbitrary: p st)
  case Nil
  thus ?case by simp
next
  case (Cons c cs)
  from Cons.IH [OF scan_inv_step [OF Cons.prems, of c]] show ?case by simp
qed

lemma scan_pair_inv: "scan_inv pair (scan_pair pair)"
proof -
  have "scan_inv [] \<lparr>qkey = [], qvalue = [], keyEncoded = False, valEncoded = False,
                      encodeCheck = 0, eqSeen = False\<rparr>"
    by (simp add: scan_inv_def key_text_def value_text_def pending_ok_Nil)
  from scan_inv_foldl [OF this, of pair] show ?thesis by (simp add: scan_pair_def)
qed

lemma scan_pair_texts:
  "qkey (scan_pair pair) = key_text pair" "qvalue (scan_pair pair) = value_text pair"
  using scan_pair_inv [of pair] by (simp_all add: scan_inv_def)

lemma percent_units_plain:
  "percent_units t = Some us \<Longrightarrow> \<not> has_escape t \<Longrightarrow> us = map Lit t"
proof (induction t arbitrary: us rule: percent_units.induct)
  case 1
  then show ?case by simp
next
  case (2 c cs)
  show ?case
  proof (cases "c = 37")
    case True
    with "2.prems" show ?thesis
      by (auto split: list.splits option.splits)
  next
    case False
    with "2.prems"(1) obtain us' where us: "us = Lit c # us'" "percent_units cs = Some us'"
      by auto
    moreover have "\<not> has_escape cs" using "2.prems"(2) has_escape_Cons by blast
    ultimately show ?thesis using "2.IH"(2) False by simp
  qed
qed

lemma utf8_units_Lit: "utf8_units (map Lit t) = Some t"
  by (induction t) auto

lemma decodeURIComponent_plain:
  "decodeURIComponent t = Inr r \<Longrightarrow> \<not> has_escape t \<Longrightarrow> r = t"
proof -
  assume r: "decodeURIComponent t = Inr r" and no: "\<not> has_escape t"
  from r obtain us where us: "percent_units t = Some us" "utf8_units us = Some r"
    by (auto simp: decodeURIComponent_def split: option.splits Option.bind_splits)
  from percent_units_plain [OF us(1) no] us(2) show "r = t"
    by (simp add: utf8_units_Lit)
qed

lemma percent_units_no_percent: "37 \<notin> set t \<Longrightarrow> percent_units t = Some (map Lit t)"
  by (induction t) auto

lemma decodeURIComponent_no_percent: "37 \<notin> set t \<Longrightarrow> decodeURIComponent t = Inr t"
  by (simp add: decodeURIComponent_def percent_units_no_percent utf8_units_Lit)

lemma pair_entry_decodes:
  "decodeURIComponent (key_text pair) = Inr r \<Longrightarrow> fst (pair_entry pair) = r"
  "decodeURIComponent (value_text pair) = Inr r \<Longrightarrow> snd (pair_entry pair) = r"
proof -
  note inv = scan_pair_inv [of pair]
  {
    assume r: "decodeURIComponent (key_text pair) = Inr r"
    show "fst (pair_entry pair) = r"
    proof (cases "keyEncoded (scan_pair pair)")
      case True
      with r show ?thesis
        by (auto simp: pair_entry_def Let_def scan_pair_texts decodeStr_def qsUnescape_def
              decodeURIComponent_def)
    next
      case False
      with inv have "\<not> has_escape (key_text pair)" by (auto simp: scan_inv_def)
      with r have "r = key_text pair" by (rule decodeURIComponent_plain)
      with False show ?thesis by (simp add: pair_entry_def Let_def scan_pair_texts)
    qed
  }
  {
    assume r: "decodeURIComponent (value_text pair) = Inr r"
    show "snd (pair_entry pair) = r"
    proof (cases "valEncoded (scan_pair pair)")
      case True
      with r show ?thesis
        by (auto simp: pair_entry_def Let_def scan_pair_texts decodeStr_def qsUnescape_def
              decodeURIComponent_def)
    next
      case False
      with inv have "\<not> has_escape (value_text pair)" by (auto simp: scan_inv_def)
      with r have "r = value_text pair" by (rule decodeURIComponent_plain)
      with False show ?thesis by (simp add: pair_entry_def Let_def scan_pair_texts)
    qed
  }
qed

lemma pair_entry_no_percent:
  "37 \<notin> set pair \<Longrightarrow> pair_entry pair = (key_text pair, value_text pair)"
proof -
  assume no: "37 \<notin> set pair"
  have "37 \<notin> set (key_text pair)" "37 \<notin> set (value_text pair)"
    using no by (auto simp: key_text_def value_text_def plus_space_def
                  dest: set_takeWhileD in_set_dropD set_dropWhileD)
  hence "fst (pair_entry pair) = key_text pair" "snd (pair_entry pair) = value_text pair"
    by (simp_all add: pair_entry_decodes decodeURIComponent_no_percent)
  thus ?thesis by (simp add: prod_eq_iff)
qed

lemma addKeyValue_collected:
  "addKeyValue (collected kvs) k v = collected (kvs @ [(k, v)])"
proof (rule ext)
  fix x
  show "addKeyValue (collected kvs) k v x = collected (kvs @ [(k, v)]) x"
  proof (cases "x = k")
    case False
    then have "addKeyValue (collected kvs) k v x = collected kvs x"
      by (simp add: addKeyValue_def split: option.splits qs_value.splits)
    with False show ?thesis by (simp add: collected_def)
  next
    case True
    show ?thesis
    proof (cases "map snd (filter (\<lambda>kv. fst kv = k) kvs)")
      case Nil
      with True show ?thesis by (simp add: addKeyValue_def collected_def)
    next
      case (Cons a as)
      with True show ?thesis
        by (cases as) (simp_all add: addKeyValue_def collected_def)
    qed
  qed
qed

lemma foldl_add_pair:
  "foldl add_pair (collected kvs) pairs
     = collected (kvs @ map pair_entry (filter (\<lambda>pair. pair \<noteq> []) pairs))"
proof (induction pairs arbitrary: kvs)
  case Nil
  then show ?case by simp
next
  case (Cons p pairs)
  show ?case
  proof (cases "p = []")
    case True
    then show ?thesis using Cons [of kvs] by (simp add: add_pair_def)
  next
    case False
    then have "add_pair (collected kvs) p = collected (kvs @ [pair_entry p])"
      by (simp add: add_pair_def addKeyValue_collected)
    with False show ?thesis using Cons [of "kvs @ [pair_entry p]"] by simp
  qed
qed

lemma collected_Nil: "collected [] = Map.empty"
  by (rule ext) (simp add: collected_def)

lemma parseQuerystring_collected:
  "parseQuerystring qs = collected (map pair_entry (query_pairs qs))"
proof (cases "qs = []")
  case True
  then show ?thesis by (simp add: parseQuerystring_def query_pairs_def collected_Nil)
next
  case False
  then show ?thesis
    using foldl_add_pair [of "[]" "take 1000 (split_char 38 [] qs)"]
    by (simp add: parseQuerystring_def query_pairs_def collected_Nil)
qed

lemma pair_entry_examples:
  "pair_entry (js ''a=1'') = (js ''a'', js ''1'')"
  "pair_entry (js ''b=hello+w%6Frld'') = (js ''b'', js ''hello world'')"
  "pair_entry (js ''a=2'') = (js ''a'', js ''2'')"
  "pair_entry (js ''c'') = (js ''c'', [])"
  "pair_entry (js ''d=%%41'') = (js ''d'', js ''%A'')"
  "pair_entry (js ''e=%4+1'' @ [0xE9]) = (js ''e'', js ''%4 1'' @ [0xFFFD])"
  "pair_entry (js ''f=%E2%82%AC'' @ [0xFFFD]) = (js ''f'', [0x20AC, 0xFFFD])"
  by (simp_all add: pair_entry_def scan_pair_def scan_char_def value_check_def js_def hex_digit_def decodeStr_def qsUnescape_def decodeURIComponent_def Let_def continuation_def utf8_tail_def code_units_def)


lemma query_pairs_example:
  "query_pairs (js ''a=1&b=hello+w%6Frld&a=2&&c&d=%%41&e=%4+1'' @ [0xE9] @ js ''&f=%E2%82%AC'' @ [0xFFFD])
     = [js ''a=1'', js ''b=hello+w%6Frld'', js ''a=2'', js ''c'', js ''d=%%41'',
        js ''e=%4+1'' @ [0xE9], js ''f=%E2%82%AC'' @ [0xFFFD]]"
  by (simp add: query_pairs_def js_def)

lemma parseQuerystring_example:
  "parseQuerystring (js ''a=1&b=hello+w%6Frld&a=2&&c&d=%%41&e=%4+1'' @ [0xE9] @ js ''&f=%E2%82%AC'' @ [0xFFFD])
     = [js ''a'' \<mapsto> QArray [js ''1'', js ''2''], js ''b'' \<mapsto> QString (js ''hello world''),
        js ''c'' \<mapsto> QString [], js ''d'' \<mapsto> QString (js ''%A''),
        js ''e'' \<mapsto> QString (js ''%4 1'' @ [0xFFFD]), js ''f'' \<mapsto> QString [0x20AC, 0xFFFD]]"
  unfolding parseQuerystring_collected query_pairs_example
  by (rule ext) (simp add: pair_entry_examples collected_def, simp add: js_def)

section \<open>Claims about \<open>addBody\<close>\<close>

text \<open>
  In the claims below a stream that completes is a list of events
  \<open>map Data chunks @ End # later\<close>: data events, the first \<open>end\<close>, then anything;
  the accumulated buffer is \<open>concat chunks\<close>.
\<close>

text \<open>
  C1. For every request whose \<open>content-type\<close> contains \<open>application/json\<close> in any
  letter case and whose accumulated buffer has length zero, \<open>addBody\<close> resolves with
  the body \<open>undefined\<close>: it is not rejected, and the body is neither \<open>null\<close> nor
  the empty string.
\<close>

theorem addBody_json_empty_body:
  assumes "content_type (headers req) = Some ct"
    and "regex_test_i (js ''application/json'') ct"
    and "length (concat chunks) = 0"
  shows "addBody req (map Data chunks @ End # later) = Fulfilled (req\<lparr>body := Some Undefined\<rparr>)
         \<and> Undefined \<noteq> Json JNull \<and> Undefined \<noteq> Json (JString [])"
  using assms by (simp add: addBody_end parse_body_json)

theorem addBody_json_empty_body_witness:
  "addBody (incoming (no_headers\<lparr>content_type := Some (js ''Application/JSON; charset=utf-8'')\<rparr>) (js ''/''))
           [Data [], End]
   = Fulfilled ((incoming (no_headers\<lparr>content_type := Some (js ''Application/JSON; charset=utf-8'')\<rparr>) (js ''/''))
                 \<lparr>body := Some Undefined\<rparr>)"
proof -
  let ?req = "incoming (no_headers\<lparr>content_type := Some (js ''Application/JSON; charset=utf-8'')\<rparr>) (js ''/'')"
  have 1: "content_type (headers ?req) = Some (js ''Application/JSON; charset=utf-8'')"
    by (simp add: incoming_def no_headers_def)
  have 2: "regex_test_i (js ''application/json'') (js ''Application/JSON; charset=utf-8'')"
    by (simp add: regex_test_i_def js_def canonicalize_def)
  have 3: "length (concat [[] :: buffer]) = 0" by simp
  from addBody_json_empty_body [OF 1 2 3, of "[]"] show ?thesis by simp
qed

text \<open>
  C2, as amended.  For every request whose \<open>content-type\<close> contains
  \<open>application/json\<close> and whose stream completes with a non-empty buffer: when
  \<open>JSON.parse\<close> throws, the promise is rejected with that very \<open>SyntaxError\<close>,
  which is no \<open>BodyParseError\<close> and carries no content type; when it returns a value,
  the promise resolves with exactly that value as the body.
\<close>

theorem addBody_json_outcome:
  assumes "content_type (headers req) = Some ct"
    and "regex_test_i (js ''application/json'') ct"
    and "concat chunks \<noteq> []"
  shows "(\<forall>e. JSON_parse (toString_utf8 (concat chunks)) = Inl e \<longrightarrow>
            addBody req (map Data chunks @ End # later) = Rejected e
            \<and> error_name e = ''SyntaxError'' \<and> \<not> is_BodyParseError e)
       \<and> (\<forall>v. JSON_parse (toString_utf8 (concat chunks)) = Inr v \<longrightarrow>
            addBody req (map Data chunks @ End # later) = Fulfilled (req\<lparr>body := Some (Json v)\<rparr>))"
  using assms
  by (auto simp: addBody_end parse_body_json is_BodyParseError_def dest: JSON_parse_error)

theorem addBody_json_outcome_witness:
  \<open>addBody (incoming (no_headers\<lparr>content_type := Some (js ''application/json'')\<rparr>) (js ''/''))
           [Data (ascii ''{bad''), End]
     = Rejected (JsError ''SyntaxError'' ''Unexpected token or end of JSON input'')
   \<and> addBody (incoming (no_headers\<lparr>content_type := Some (js ''application/json'')\<rparr>) (js ''/''))
           [Data (ascii ''{"a":''), Data (ascii ''1}''), End]
     = Fulfilled ((incoming (no_headers\<lparr>content_type := Some (js ''application/json'')\<rparr>) (js ''/''))
                   \<lparr>body := Some (Json (JObject [(js ''a'', JNumber (js ''1''))]))\<rparr>)\<close>
proof -
  let ?req = "incoming (no_headers\<lparr>content_type := Some (js ''application/json'')\<rparr>) (js ''/'')"
  have 1: "content_type (headers ?req) = Some (js ''application/json'')"
    by (simp add: incoming_def no_headers_def)
  have 2: "regex_test_i (js ''application/json'') (js ''application/json'')"
    by (simp add: regex_test_i_def js_def)
  have bad: "concat [ascii ''{bad''] \<noteq> []" by (simp add: ascii_def)
  have good: \<open>concat [ascii ''{"a":'', ascii ''1}''] \<noteq> []\<close> by (simp add: ascii_def)
  have pbad: "JSON_parse (toString_utf8 (concat [ascii ''{bad'']))
      = Inl (JsError ''SyntaxError'' ''Unexpected token or end of JSON input'')"
    by (simp add: ascii_def JSON_parse_def punctuation_def json_space_def is_digit_def)
  have pgood: \<open>JSON_parse (toString_utf8 (concat [ascii ''{"a":'', ascii ''1}'']))
      = Inr (JObject [(js ''a'', JNumber (js ''1''))])\<close>
    by (simp add: ascii_def js_def JSON_parse_def punctuation_def json_space_def is_digit_def
          number_char_def json_number_def fraction_ok_def)
  from addBody_json_outcome [OF 1 2 bad, of "[]"] pbad
  have a: "addBody ?req (map Data [ascii ''{bad''] @ [End])
      = Rejected (JsError ''SyntaxError'' ''Unexpected token or end of JSON input'')"
    by blast
  from addBody_json_outcome [OF 1 2 good, of "[]"] pgood
  have b: \<open>addBody ?req (map Data [ascii ''{"a":'', ascii ''1}''] @ [End])
      = Fulfilled (?req\<lparr>body := Some (Json (JObject [(js ''a'', JNumber (js ''1''))]))\<rparr>)\<close>
    by blast
  from a b show ?thesis by simp
qed

text \<open>
  C2 as stated fails: for the body \<open>{bad\<close> the rejection is the \<open>SyntaxError\<close> of
  \<open>JSON.parse\<close>, not a \<open>BodyParseError\<close>.
\<close>

theorem addBody_json_outcome_counterexample:
  "addBody (incoming (no_headers\<lparr>content_type := Some (js ''application/json'')\<rparr>) (js ''/''))
           [Data (ascii ''{bad''), End]
     = Rejected (JsError ''SyntaxError'' ''Unexpected token or end of JSON input'')
   \<and> \<not> is_BodyParseError (JsError ''SyntaxError'' ''Unexpected token or end of JSON input'')"
  by (simp add: addBody_def promise_then_def is_BodyParseError_def incoming_def no_headers_def
        parse_body_def regex_test_i_def js_def canonicalize_def ascii_def JSON_parse_def
        punctuation_def json_space_def is_digit_def)

text \<open>
  C3, as amended.  If the stream emits an error before it ends, the promise is rejected
  with the emitted value itself, whatever the content type; the chunks read so far play
  no part (the outcome is that of a stream whose first event is the error), so no partial
  buffer is decoded.
\<close>

theorem addBody_stream_error:
  "addBody req (map Data chunks @ Error cause # later) = Rejected cause
   \<and> addBody req (map Data chunks @ Error cause # later) = addBody req [Error cause]"
  using addBody_error [of req chunks cause later] addBody_error [of req "[]" cause "[]"] by simp

text \<open>
  C3 as stated fails: the rejection is the emitted error, here an \<open>Error\<close>, not a
  \<open>StreamError\<close> that carries it.
\<close>

theorem addBody_stream_error_counterexample:
  "addBody (incoming no_headers (js ''/'')) [Data [123], Error (JsError ''Error'' ''aborted'')]
     = Rejected (JsError ''Error'' ''aborted'')
   \<and> \<not> is_StreamError (JsError ''Error'' ''aborted'')"
  by (simp add: addBody_def promise_then_def is_StreamError_def)

text \<open>
  C4. For every request whose \<open>content-type\<close> contains neither \<open>application/json\<close>
  nor \<open>application/x-www-form-urlencoded\<close> (an absent header included), \<open>addBody\<close>
  resolves with the accumulated buffer itself as the body, and decoding never fails: a
  rejection can only be an error the stream emitted.
\<close>

theorem addBody_unrecognized_type_raw:
  assumes "\<forall>ct. content_type (headers req) = Some ct \<longrightarrow>
             \<not> regex_test_i (js ''application/json'') ct
             \<and> \<not> regex_test_i (js ''application/x-www-form-urlencoded'') ct"
  shows "addBody req (map Data chunks @ End # later)
           = Fulfilled (req\<lparr>body := Some (Raw (concat chunks))\<rparr>)
         \<and> (\<forall>events e. addBody req events = Rejected e \<longrightarrow>
               (\<exists>cs l. events = map Data cs @ Error e # l))"
proof -
  let ?ct = "case content_type (headers req) of None \<Rightarrow> [] | Some s \<Rightarrow> s"
  have no: "\<not> regex_test_i (js ''application/json'') ?ct"
      "\<not> regex_test_i (js ''application/x-www-form-urlencoded'') ?ct"
    using assms no_type_in_empty by (auto split: option.splits)
  then have raw: "parse_body ?ct data = Inr (Raw data)" for data
    by (rule parse_body_raw)
  have first: "addBody req (map Data chunks @ End # later)
      = Fulfilled (req\<lparr>body := Some (Raw (concat chunks))\<rparr>)"
    by (simp add: addBody_end raw)
  have second: "\<exists>cs l. events = map Data cs @ Error e # l"
    if "addBody req events = Rejected e" for events e
  proof (cases "read_stream [] events")
    case Pending
    with that show ?thesis by (simp add: addBody_unfold)
  next
    case (Fulfilled data)
    with that show ?thesis by (simp add: addBody_unfold raw)
  next
    case (Rejected e')
    with that have "e' = e" by (simp add: addBody_unfold)
    with Rejected show ?thesis by (auto dest: read_stream_rejected)
  qed
  from first second show ?thesis by blast
qed

theorem addBody_unrecognized_type_raw_witness:
  "addBody (incoming (no_headers\<lparr>content_type := Some (js ''text/plain'')\<rparr>) (js ''/''))
           [Data [0xFF, 0x00], Data [0x7B], End]
   = Fulfilled ((incoming (no_headers\<lparr>content_type := Some (js ''text/plain'')\<rparr>) (js ''/''))
                 \<lparr>body := Some (Raw [0xFF, 0x00, 0x7B])\<rparr>)
   \<and> addBody (incoming no_headers (js ''/'')) [Data [0xFF, 0x00], Data [0x7B], End]
   = Fulfilled ((incoming no_headers (js ''/''))\<lparr>body := Some (Raw [0xFF, 0x00, 0x7B])\<rparr>)
   \<and> (\<exists>cs l. [Data [0x7B], Error (JsError ''Error'' ''aborted''), End]
          = map Data cs @ Error (JsError ''Error'' ''aborted'') # l)"
proof -
  let ?h = "no_headers\<lparr>content_type := Some (js ''text/plain'')\<rparr>"
  have 1: "\<forall>ct. content_type (headers (incoming ?h (js ''/''))) = Some ct \<longrightarrow>
             \<not> regex_test_i (js ''application/json'') ct
             \<and> \<not> regex_test_i (js ''application/x-www-form-urlencoded'') ct"
    by (simp add: incoming_def no_headers_def regex_test_i_def js_def canonicalize_def)
  have 2: "\<forall>ct. content_type (headers (incoming no_headers (js ''/''))) = Some ct \<longrightarrow>
             \<not> regex_test_i (js ''application/json'') ct
             \<and> \<not> regex_test_i (js ''application/x-www-form-urlencoded'') ct"
    by (simp add: incoming_def no_headers_def)
  have rej: "addBody (incoming no_headers (js ''/''))
        [Data [0x7B], Error (JsError ''Error'' ''aborted''), End]
      = Rejected (JsError ''Error'' ''aborted'')"
    by (simp add: addBody_def promise_then_def)
  from addBody_unrecognized_type_raw [OF 2, of "[]" "[]"] rej
  have 3: "\<exists>cs l. [Data [0x7B], Error (JsError ''Error'' ''aborted''), End]
          = map Data cs @ Error (JsError ''Error'' ''aborted'') # l"
    by blast
  from addBody_unrecognized_type_raw [OF 1, of "[[0xFF, 0x00], [0x7B]]" "[]"]
       addBody_unrecognized_type_raw [OF 2, of "[[0xFF, 0x00], [0x7B]]" "[]"] 3
  show ?thesis by simp
qed

text \<open>
  C5. The dispatch is a substring match that ignores letter case, tried in a fixed order:
  the JSON rule, then the form rule, then the raw buffer.  A content type that contains
  both names is therefore decoded as JSON, and an absent header counts as the empty
  string.
\<close>

theorem addBody_dispatch_order:
  "addBody req (map Data chunks @ End # later) =
     (let contentType = (case content_type (headers req) of None \<Rightarrow> [] | Some s \<Rightarrow> s);
          data = concat chunks
      in if (\<exists>pre mid post. contentType = pre @ mid @ post
               \<and> map canonicalize mid = map canonicalize (js ''application/json''))
         then (if data = [] then Fulfilled (req\<lparr>body := Some Undefined\<rparr>)
               else (case JSON_parse (toString_utf8 data) of
                       Inl e \<Rightarrow> Rejected e
                     | Inr v \<Rightarrow> Fulfilled (req\<lparr>body := Some (Json v)\<rparr>)))
         else if (\<exists>pre mid post. contentType = pre @ mid @ post
               \<and> map canonicalize mid = map canonicalize (js ''application/x-www-form-urlencoded''))
         then Fulfilled (req\<lparr>body := Some (Form (parseQuerystring (toString_utf8 data)))\<rparr>)
         else Fulfilled (req\<lparr>body := Some (Raw data)\<rparr>))"
  unfolding regex_test_i_iff [symmetric] Let_def
  by (simp add: addBody_end parse_body_def split: sum.splits)

theorem addBody_dispatch_order_witness:
  "addBody (incoming (no_headers\<lparr>content_type :=
              Some (js ''application/x-www-form-urlencoded, Application/Json'')\<rparr>) (js ''/''))
           [Data (ascii ''[1]''), End]
     = Fulfilled ((incoming (no_headers\<lparr>content_type :=
              Some (js ''application/x-www-form-urlencoded, Application/Json'')\<rparr>) (js ''/''))
                   \<lparr>body := Some (Json (JArray [JNumber (js ''1'')]))\<rparr>)"
proof -
  let ?req = "incoming (no_headers\<lparr>content_type :=
              Some (js ''application/x-www-form-urlencoded, Application/Json'')\<rparr>) (js ''/'')"
  have ct: "(case content_type (headers ?req) of None \<Rightarrow> [] | Some s \<Rightarrow> s)
      = js ''application/x-www-form-urlencoded, Application/Json''"
    by (simp add: incoming_def no_headers_def)
  have both: "regex_test_i (js ''application/json'')
        (js ''application/x-www-form-urlencoded, Application/Json'')"
      "regex_test_i (js ''application/x-www-form-urlencoded'')
        (js ''application/x-www-form-urlencoded, Application/Json'')"
    by (simp_all add: regex_test_i_def js_def canonicalize_def)
  have p: "JSON_parse (toString_utf8 (concat [ascii ''[1]''])) = Inr (JArray [JNumber (js ''1'')])"
    by (simp add: ascii_def js_def JSON_parse_def punctuation_def json_space_def is_digit_def
          number_char_def json_number_def fraction_ok_def)
  have ne: "concat [ascii ''[1]''] \<noteq> []" by (simp add: ascii_def)
  have "addBody ?req (map Data [ascii ''[1]''] @ End # [])
      = Fulfilled (?req\<lparr>body := Some (Json (JArray [JNumber (js ''1'')]))\<rparr>)"
    unfolding addBody_dispatch_order [of ?req "[ascii ''[1]'']" "[]"] ct Let_def
      regex_test_i_iff [symmetric]
    using both p ne by simp
  then show ?thesis by simp
qed

text \<open>
  C6. For every request whose \<open>content-type\<close> contains
  \<open>application/x-www-form-urlencoded\<close> and not \<open>application/json\<close>, \<open>addBody\<close>
  decodes the buffer as UTF-8 and resolves with its parse as a query string.  The
  decoding is UTF-8: the encoding of any sequence of scalar values is decoded to their
  UTF-16 code units.  The parse maps every key to its values in order, one value as a
  string and a repeated key as a list.  Keys and values are percent-decoded: the key is
  the text before the first \<open>=\<close> and the value the text after it, each with \<open>+\<close> read as
  a space, and the entry stored is what \<open>decodeURIComponent\<close> returns for that text
  whenever it accepts it.  The parse never fails: a rejection can only be an error the
  stream emitted.
\<close>

theorem addBody_form_urlencoded:
  assumes "content_type (headers req) = Some ct"
    and "\<not> regex_test_i (js ''application/json'') ct"
    and "regex_test_i (js ''application/x-www-form-urlencoded'') ct"
  shows "addBody req (map Data chunks @ End # later)
           = Fulfilled (req\<lparr>body := Some (Form (parseQuerystring (toString_utf8 (concat chunks))))\<rparr>)
         \<and> (\<forall>events e. addBody req events = Rejected e \<longrightarrow>
               (\<exists>cs l. events = map Data cs @ Error e # l))
         \<and> (\<forall>cps. list_all scalar_value cps \<longrightarrow>
               toString_utf8 (concat (map utf8_encode cps)) = concat (map code_units cps))
         \<and> (\<forall>qs. parseQuerystring qs = collected (map pair_entry (query_pairs qs)))
         \<and> (\<forall>pair r. decodeURIComponent (key_text pair) = Inr r \<longrightarrow> fst (pair_entry pair) = r)
         \<and> (\<forall>pair r. decodeURIComponent (value_text pair) = Inr r \<longrightarrow> snd (pair_entry pair) = r)"
proof -
  have form: "parse_body (case content_type (headers req) of None \<Rightarrow> [] | Some s \<Rightarrow> s) data
      = Inr (Form (parseQuerystring (toString_utf8 data)))" for data
    using assms by (simp add: parse_body_form)
  have first: "addBody req (map Data chunks @ End # later)
      = Fulfilled (req\<lparr>body := Some (Form (parseQuerystring (toString_utf8 (concat chunks))))\<rparr>)"
    by (simp add: addBody_end form)
  have second: "\<exists>cs l. events = map Data cs @ Error e # l"
    if "addBody req events = Rejected e" for events e
  proof (cases "read_stream [] events")
    case Pending
    with that show ?thesis by (simp add: addBody_unfold)
  next
    case (Fulfilled data)
    with that show ?thesis by (simp add: addBody_unfold form)
  next
    case (Rejected e')
    with that have "e' = e" by (simp add: addBody_unfold)
    with Rejected show ?thesis by (auto dest: read_stream_rejected)
  qed
  from first second toString_utf8_roundtrip parseQuerystring_collected pair_entry_decodes
  show ?thesis by blast
qed

text \<open>
  A body sent in two chunks that cut the two bytes of \<open>U+00E9\<close> apart and that ends with a
  byte \<open>0xFF\<close>, which no UTF-8 sequence holds.  The key \<open>a\<close> is repeated, an empty piece is
  skipped, \<open>c\<close> has no \<open>=\<close>, and the values of \<open>d\<close> and \<open>e\<close> hold a malformed escape.
\<close>

theorem addBody_form_urlencoded_witness:
  "addBody (incoming (no_headers\<lparr>content_type := Some (js ''application/x-www-form-urlencoded'')\<rparr>)
              (js ''/''))
           [Data (ascii ''a=1&b=hello+w%6Frld&a=2&&c&d=%%41&e=%4+1'' @ [0xC3]),
            Data ([0xA9] @ ascii ''&f=%E2%82%AC'' @ [0xFF]), End]
     = Fulfilled ((incoming (no_headers\<lparr>content_type :=
                      Some (js ''application/x-www-form-urlencoded'')\<rparr>) (js ''/''))
         \<lparr>body := Some (Form
            [js ''a'' \<mapsto> QArray [js ''1'', js ''2''], js ''b'' \<mapsto> QString (js ''hello world''),
             js ''c'' \<mapsto> QString [], js ''d'' \<mapsto> QString (js ''%A''),
             js ''e'' \<mapsto> QString (js ''%4 1'' @ [0xFFFD]),
             js ''f'' \<mapsto> QString [0x20AC, 0xFFFD]])\<rparr>)
   \<and> (\<exists>cs l. [Data [0x7B], Error (JsError ''Error'' ''aborted''), End]
          = map Data cs @ Error (JsError ''Error'' ''aborted'') # l)
   \<and> toString_utf8 [0x24, 0xC3, 0xA9, 0xE2, 0x82, 0xAC, 0xF0, 0x9F, 0x98, 0x80]
        = [0x24, 0xE9, 0x20AC, 0xD83D, 0xDE00]
   \<and> pair_entry (js ''x+y%3D=hello+w%6Frld'') = (js ''x y='', js ''hello world'')"
proof -
  let ?ct = "js ''application/x-www-form-urlencoded''"
  let ?req = "incoming (no_headers\<lparr>content_type := Some ?ct\<rparr>) (js ''/'')"
  let ?chunks = "[ascii ''a=1&b=hello+w%6Frld&a=2&&c&d=%%41&e=%4+1'' @ [0xC3],
                  [0xA9] @ ascii ''&f=%E2%82%AC'' @ [0xFF]]"
  have 1: "content_type (headers ?req) = Some ?ct" by (simp add: incoming_def no_headers_def)
  have 2: "\<not> regex_test_i (js ''application/json'') ?ct"
    by (simp add: regex_test_i_def js_def canonicalize_def)
  have 3: "regex_test_i (js ''application/x-www-form-urlencoded'') ?ct"
    by (simp add: regex_test_i_def js_def canonicalize_def)
  note T = addBody_form_urlencoded [OF 1 2 3, of ?chunks "[]"]
  have decoded: "toString_utf8 (concat ?chunks)
      = js ''a=1&b=hello+w%6Frld&a=2&&c&d=%%41&e=%4+1'' @ [0xE9] @ js ''&f=%E2%82%AC'' @ [0xFFFD]"
    by (simp add: ascii_def js_def continuation_def utf8_tail_def code_units_def)
  from T have "addBody ?req (map Data ?chunks @ [End])
      = Fulfilled (?req\<lparr>body := Some (Form (parseQuerystring (toString_utf8 (concat ?chunks))))\<rparr>)"
    by blast
  then have a: "addBody ?req
           [Data (ascii ''a=1&b=hello+w%6Frld&a=2&&c&d=%%41&e=%4+1'' @ [0xC3]),
            Data ([0xA9] @ ascii ''&f=%E2%82%AC'' @ [0xFF]), End]
     = Fulfilled (?req
         \<lparr>body := Some (Form
            [js ''a'' \<mapsto> QArray [js ''1'', js ''2''], js ''b'' \<mapsto> QString (js ''hello world''),
             js ''c'' \<mapsto> QString [], js ''d'' \<mapsto> QString (js ''%A''),
             js ''e'' \<mapsto> QString (js ''%4 1'' @ [0xFFFD]),
             js ''f'' \<mapsto> QString [0x20AC, 0xFFFD]])\<rparr>)"
    unfolding decoded parseQuerystring_example by simp
  have rej: "addBody ?req [Data [0x7B], Error (JsError ''Error'' ''aborted''), End]
      = Rejected (JsError ''Error'' ''aborted'')"
    by (simp add: addBody_def promise_then_def)
  from T rej
  have b: "\<exists>cs l. [Data [0x7B], Error (JsError ''Error'' ''aborted''), End]
          = map Data cs @ Error (JsError ''Error'' ''aborted'') # l"
    by blast
  have scalars: "list_all scalar_value [0x24, 0xE9, 0x20AC, 0x1F600]"
    by (simp add: scalar_value_def)
  from T scalars
  have "toString_utf8 (concat (map utf8_encode [0x24, 0xE9, 0x20AC, 0x1F600]))
      = concat (map code_units [0x24, 0xE9, 0x20AC, 0x1F600])"
    by blast
  then have c: "toString_utf8 [0x24, 0xC3, 0xA9, 0xE2, 0x82, 0xAC, 0xF0, 0x9F, 0x98, 0x80]
      = [0x24, 0xE9, 0x20AC, 0xD83D, 0xDE00]"
    by (simp add: utf8_encode_def byte_def code_units_def)
  have key: "decodeURIComponent (key_text (js ''x+y%3D=hello+w%6Frld'')) = Inr (js ''x y='')"
    by (simp add: key_text_def plus_space_def js_def decodeURIComponent_def hex_digit_def)
  have val: "decodeURIComponent (value_text (js ''x+y%3D=hello+w%6Frld'')) = Inr (js ''hello world'')"
    by (simp add: value_text_def plus_space_def js_def decodeURIComponent_def hex_digit_def)
  from T key have "fst (pair_entry (js ''x+y%3D=hello+w%6Frld'')) = js ''x y=''" by blast
  moreover from T val have "snd (pair_entry (js ''x+y%3D=hello+w%6Frld'')) = js ''hello world''"
    by blast
  ultimately have d: "pair_entry (js ''x+y%3D=hello+w%6Frld'') = (js ''x y='', js ''hello world'')"
    by (simp add: prod_eq_iff)
  from a b c d show ?thesis by blast
qed

section \<open>Properties of the cookie parser\<close>

lemma store_cookie_alt:
  "store_cookie obj seg =
     (case decodeURIComponent (cookie_value seg) of
        Inl e \<Rightarrow> Inl e
      | Inr d \<Rightarrow> Inr (set_property obj (cookie_name seg) d))"
  unfolding store_cookie_def cookie_name_def cookie_value_def Let_def ..






lemma js_indexOf_absent: "c \<notin> set s \<Longrightarrow> js_indexOf s c = - 1"
  by (simp add: js_indexOf_def)


lemma name_value_without_equals:
  assumes "61 \<notin> set seg"
  shows "cookie_name seg = butlast seg" "cookie_value seg = seg"
  using assms
  by (simp_all add: cookie_name_def cookie_value_def js_indexOf_absent js_slice_def
        js_slice_from_def butlast_conv_take nat_diff_distrib' max_def)








lemma split_semicolons_none:
  "59 \<notin> set s \<Longrightarrow> split_semicolons cur s = [cur @ s]"
  by (induction s arbitrary: cur) auto




lemma addCookies_present:
  assumes "cookie (headers req) = Some h" and "h \<noteq> One []"
  shows "addCookies req =
     (case forEach store_cookie (cookie_strings h) Map.empty of
        Inl e \<Rightarrow> Inl e
      | Inr m \<Rightarrow> Inr (req\<lparr>cookies := Some m\<rparr>))"
  using assms by (cases h) (simp_all add: addCookies_def truthy_def cookie_strings_def)








section \<open>Claims about \<open>addCookies\<close> and the synchronous transforms\<close>




text \<open>
  C10, as amended.  For a piece of the header without \<open>=\<close>, \<open>indexOf\<close> returns
  \<open>-1\<close>: the name is the piece without its last character and the value is the whole
  piece.  When \<open>decodeURIComponent\<close> accepts the piece, the entry is stored under that
  name, unless the name is \<open>__proto__\<close>, for which the assignment stores nothing; when
  it throws, so does \<open>addCookies\<close>, and nothing is stored.
\<close>

theorem store_cookie_without_equals:
  assumes "61 \<notin> set seg"
  shows "(\<forall>d. decodeURIComponent seg = Inr d \<longrightarrow>
            store_cookie obj seg
              = Inr (if butlast seg = js ''__proto__'' then obj else obj(butlast seg \<mapsto> d)))
       \<and> (\<forall>e. decodeURIComponent seg = Inl e \<longrightarrow> store_cookie obj seg = Inl e)
       \<and> (\<forall>d. cookie (headers req) = Some (One seg) \<and> seg \<noteq> [] \<and> 59 \<notin> set seg
               \<and> decodeURIComponent seg = Inr d \<and> butlast seg \<noteq> js ''__proto__'' \<longrightarrow>
            addCookies req = Inr (req\<lparr>cookies := Some [butlast seg \<mapsto> d]\<rparr>))"
proof (intro conjI allI impI)
  note nv = name_value_without_equals [OF assms]
  show "store_cookie obj seg
      = Inr (if butlast seg = js ''__proto__'' then obj else obj(butlast seg \<mapsto> d))"
    if "decodeURIComponent seg = Inr d" for d
    using that unfolding store_cookie_alt nv by (simp add: set_property_def)
  show "store_cookie obj seg = Inl e" if "decodeURIComponent seg = Inl e" for e
    using that unfolding store_cookie_alt nv by simp
  show "addCookies req = Inr (req\<lparr>cookies := Some [butlast seg \<mapsto> d]\<rparr>)"
    if h: "cookie (headers req) = Some (One seg) \<and> seg \<noteq> [] \<and> 59 \<notin> set seg
               \<and> decodeURIComponent seg = Inr d \<and> butlast seg \<noteq> js ''__proto__''" for d
  proof -
    have "store_cookie Map.empty seg = Inr [butlast seg \<mapsto> d]"
      using h unfolding store_cookie_alt nv by (simp add: set_property_def)
    moreover have "cookie_strings (One seg) = [seg]"
      using h by (simp add: cookie_strings_def split_semicolons_none)
    moreover have "cookie (headers req) = Some (One seg)" "One seg \<noteq> One []"
      using h by simp_all
    ultimately show ?thesis by (simp add: addCookies_present)
  qed
qed

theorem store_cookie_without_equals_witness:
  "61 \<notin> set (js ''abc'')
   \<and> store_cookie Map.empty (js ''abc'') = Inr [js ''ab'' \<mapsto> js ''abc'']
   \<and> store_cookie Map.empty (js ''__proto__x'') = Inr Map.empty
   \<and> store_cookie Map.empty (js ''%zz'') = Inl (JsError ''URIError'' ''URI malformed'')
   \<and> addCookies (incoming (no_headers\<lparr>cookie := Some (One (js ''abc''))\<rparr>) (js ''/''))
       = Inr ((incoming (no_headers\<lparr>cookie := Some (One (js ''abc''))\<rparr>) (js ''/''))
                \<lparr>cookies := Some [js ''ab'' \<mapsto> js ''abc'']\<rparr>)"
proof -
  let ?req = "incoming (no_headers\<lparr>cookie := Some (One (js ''abc''))\<rparr>) (js ''/'')"
  have n1: "61 \<notin> set (js ''abc'')" and n2: "61 \<notin> set (js ''__proto__x'')"
    and n3: "61 \<notin> set (js ''%zz'')"
    by (simp_all add: js_def)
  have d1: "decodeURIComponent (js ''abc'') = Inr (js ''abc'')"
    and d2: "decodeURIComponent (js ''__proto__x'') = Inr (js ''__proto__x'')"
    and d3: "decodeURIComponent (js ''%zz'') = Inl (JsError ''URIError'' ''URI malformed'')"
    by (simp_all add: js_def decodeURIComponent_def hex_digit_def)
  have b1: "butlast (js ''abc'') = js ''ab''" "js ''ab'' \<noteq> js ''__proto__''"
    and b2: "butlast (js ''__proto__x'') = js ''__proto__''"
    by (simp_all add: js_def)
  have h: "cookie (headers ?req) = Some (One (js ''abc'')) \<and> js ''abc'' \<noteq> []
      \<and> 59 \<notin> set (js ''abc'') \<and> decodeURIComponent (js ''abc'') = Inr (js ''abc'')
      \<and> butlast (js ''abc'') \<noteq> js ''__proto__''"
    using d1 b1 by (simp add: incoming_def no_headers_def) (simp add: js_def)
  from store_cookie_without_equals [OF n1, of Map.empty ?req] d1 h
  have "store_cookie Map.empty (js ''abc'') = Inr [js ''ab'' \<mapsto> js ''abc'']"
    and "addCookies ?req = Inr (?req\<lparr>cookies := Some [js ''ab'' \<mapsto> js ''abc'']\<rparr>)"
    unfolding b1 using b1(2) by auto
  moreover from store_cookie_without_equals [OF n2, of Map.empty ?req] d2
  have "store_cookie Map.empty (js ''__proto__x'') = Inr Map.empty"
    unfolding b2 by auto
  moreover from store_cookie_without_equals [OF n3, of Map.empty ?req] d3
  have "store_cookie Map.empty (js ''%zz'') = Inl (JsError ''URIError'' ''URI malformed'')"
    by blast
  ultimately show ?thesis using n1 by simp
qed

text \<open>
  C10 as stated fails: the piece \<open>%\<close> has no \<open>=\<close>, and \<open>addCookies\<close> throws
  \<open>URIError\<close> instead of storing an entry; for the piece \<open>__proto__x\<close> it returns
  without an entry.
\<close>

theorem store_cookie_without_equals_counterexample:
  "61 \<notin> set (js ''%'')
   \<and> addCookies (incoming (no_headers\<lparr>cookie := Some (One (js ''%''))\<rparr>) (js ''/''))
       = Inl (JsError ''URIError'' ''URI malformed'')
   \<and> 61 \<notin> set (js ''__proto__x'')
   \<and> addCookies (incoming (no_headers\<lparr>cookie := Some (One (js ''__proto__x''))\<rparr>) (js ''/''))
       = Inr ((incoming (no_headers\<lparr>cookie := Some (One (js ''__proto__x''))\<rparr>) (js ''/''))
                \<lparr>cookies := Some Map.empty\<rparr>)"
  by (simp add: addCookies_def truthy_def incoming_def no_headers_def js_def
        store_cookie_def js_indexOf_def js_slice_def js_slice_from_def decodeURIComponent_def
        hex_digit_def set_property_def)




section \<open>Claims about \<open>addXhr\<close>\<close>

text \<open>
  C7. For every request, \<open>addXhr\<close> sets \<open>xhr\<close> to true if and only if at least one
  of these holds: the \<open>x-requested-with\<close> header equals exactly \<open>XMLHttpRequest\<close>; the
  raw URL (query string included) ends with \<open>.json\<close>; the \<open>accept\<close> header does not
  contain the substring \<open>text/html\<close>.  An absent \<open>accept\<close> header therefore yields
  true.  Nothing but the \<open>xhr\<close> field of the request changes.
\<close>

theorem addXhr_true_iff:
  "addXhr req = req\<lparr>xhr := Some
      (x_requested_with (headers req) = Some (js ''XMLHttpRequest'')
       \<or> (\<exists>pre. url req = pre @ js ''.json'')
       \<or> \<not> (\<exists>a pre post. accept (headers req) = Some a \<and> a = pre @ js ''text/html'' @ post))\<rparr>
   \<and> (accept (headers req) = None \<longrightarrow> xhr (addXhr req) = Some True)"
proof -
  have absent: "\<not> regex_test (js ''text/html'') (to_string None)"
    by (rule undefined_has_no_text_html)
  have acc: "regex_test (js ''text/html'') (to_string (accept (headers req)))
      \<longleftrightarrow> (\<exists>a pre post. accept (headers req) = Some a \<and> a = pre @ js ''text/html'' @ post)"
  proof (cases "accept (headers req)")
    case None
    then show ?thesis using absent by simp
  next
    case (Some a)
    then show ?thesis by (simp add: to_string_def regex_test_iff)
  qed
  have first: "addXhr req = req\<lparr>xhr := Some
      (x_requested_with (headers req) = Some (js ''XMLHttpRequest'')
       \<or> (\<exists>pre. url req = pre @ js ''.json'')
       \<or> \<not> (\<exists>a pre post. accept (headers req) = Some a \<and> a = pre @ js ''text/html'' @ post))\<rparr>"
    unfolding addXhr_def Let_def acc regex_test_end_iff ..
  have second: "accept (headers req) = None \<longrightarrow> xhr (addXhr req) = Some True"
    using absent by (simp add: addXhr_def)
  from first second show ?thesis ..
qed

theorem addXhr_true_iff_witness:
  "accept (headers (incoming no_headers (js ''/''))) = None
   \<and> xhr (addXhr (incoming no_headers (js ''/''))) = Some True"
  using addXhr_true_iff [of "incoming no_headers (js ''/'')"]
  by (simp add: incoming_def no_headers_def)

text \<open>The four cases the specification lists for the classifier.\<close>

lemma addXhr_examples:
  "xhr (addXhr (incoming (no_headers\<lparr>x_requested_with := Some (js ''XMLHttpRequest''),
                                     accept := Some (js ''text/html'')\<rparr>) (js ''/''))) = Some True"
  "xhr (addXhr (incoming (no_headers\<lparr>accept := Some (js ''text/html'')\<rparr>)
                         (js ''/report.json''))) = Some True"
  "xhr (addXhr (incoming (no_headers\<lparr>accept := Some (js ''text/plain'')\<rparr>) (js ''/''))) = Some True"
  "xhr (addXhr (incoming (no_headers\<lparr>accept := Some (js ''text/html,application/json'')\<rparr>)
                         (js ''/''))) = Some False"
  by (simp_all add: addXhr_def incoming_def no_headers_def js_def to_string_def
        regex_test_end_def)

end
